theory Spec2Isabelle
  imports Complex_Main "HOL-Library.Word" "HOL-Library.Multiset" "HOL-Library.Sublist"
begin

section \<open>The stdout user interface of gdu (stdout/stdout.go)\<close>

text \<open>
  Go strings are byte sequences: \<open>string\<close> (a list of 8-bit characters) with
  \<open>length\<close> for Go's \<open>len\<close>. Go's \<open>int64\<close> is \<open>64 word\<close>, read with \<open>sint\<close>.
\<close>

subsection \<open>Data model\<close>

datatype error = Err string

datatype FileInfo = FileInfo

text \<open>One entry of a scan result, as seen through the getters of \<open>analyze.Item\<close>
  that \<open>AnalyzePath\<close> calls: GetName, GetSize, GetUsage, IsDir, GetFlag (a rune).\<close>

record Item =
  GetName :: string
  GetSize :: "64 word"
  GetUsage :: "64 word"
  IsDir :: bool
  GetFlag :: int

record Dir =
  Files :: "Item list"

text \<open>The analyzer collaborator: the blocking scan, and the ordering that the type
  \<open>analyze.Files\<close> gives to \<open>sort.Sort\<close> (its \<open>Less\<close> method, on two entries). Neither
  is part of stdout.go; both are fields so that every result holds for any analyzer.\<close>

record Analyzer =
  AnalyzeDir :: "string \<Rightarrow> (string \<Rightarrow> bool) \<Rightarrow> Dir"
  Files_Less :: "Item \<Rightarrow> Item \<Rightarrow> bool"

text \<open>The \<open>UI\<close> struct. A \<open>*color.Color\<close> is modelled by what its \<open>Sprint\<close> family does
  to the text already formatted (the wrapping in escape sequences, or nothing when
  colours are off). The output sink is state and is threaded separately.\<close>

record UI =
  analyzer :: Analyzer
  ignoreDirPaths :: "string \<rightharpoonup> unit"
  useColors :: bool
  showProgress :: bool
  showApparentSize :: bool
  red :: "string \<Rightarrow> string"
  orange :: "string \<Rightarrow> string"
  blue :: "string \<Rightarrow> string"
  pathChecker :: "string \<Rightarrow> error + FileInfo"

subsection \<open>Decimal text of integers (the verb \<open>%d\<close>, and \<open>Sprint\<close> of an int)\<close>

definition digit_char :: "nat \<Rightarrow> char" where
  "digit_char d = ''0123456789'' ! (d mod 10)"

fun show_nat :: "nat \<Rightarrow> string" where
  "show_nat n = (if n < 10 then [digit_char n] else show_nat (n div 10) @ [digit_char n])"

declare show_nat.simps [simp del]

definition show_int :: "int \<Rightarrow> string" where
  "show_int i = (if i < 0 then CHR ''-'' # show_nat (nat (- i)) else show_nat (nat i))"

subsection \<open>float64 arithmetic\<close>

text \<open>
  A float64 is NaN, an infinity (\<open>Inf True\<close> is the negative one) or a finite number
  \<open>Fin s m e\<close> of value \<open>(-1)^s * m * 2^e\<close> (so there are two zeros). Every operation
  computes the exact result and rounds it to the nearest float64, ties to the even
  mantissa (IEEE 754 binary64): 53 bits of mantissa, exponent of the last bit from
  \<open>-1074\<close> to \<open>971\<close>, overflow to infinity.
\<close>

datatype float64 = NaN | Inf bool | Fin bool nat int

fun bitlen :: "nat \<Rightarrow> nat" where
  "bitlen n = (if n = 0 then 0 else Suc (bitlen (n div 2)))"

declare bitlen.simps [simp del]

text \<open>The integer nearest to \<open>n / d\<close>, a tie going to the even one.\<close>

definition round_half_even :: "nat \<Rightarrow> nat \<Rightarrow> nat" where
  "round_half_even n d =
     (let q = n div d; r = n mod d
      in if 2 * r < d then q else if d < 2 * r then q + 1 else if even q then q else q + 1)"

text \<open>\<open>\<lfloor>log\<^sub>2 (a / b)\<rfloor>\<close> for positive \<open>a\<close> and \<open>b\<close>.\<close>

definition ilog2_ratio :: "nat \<Rightarrow> nat \<Rightarrow> int" where
  "ilog2_ratio a b =
     (let d = int (bitlen a) - int (bitlen b)
      in if b * 2 ^ nat d \<le> a * 2 ^ nat (- d) then d else d - 1)"

text \<open>The float64 nearest to \<open>(-1)^s * a / b\<close>.\<close>

definition round_f64 :: "bool \<Rightarrow> nat \<Rightarrow> nat \<Rightarrow> float64" where
  "round_f64 s a b =
     (if a = 0 then Fin s 0 0
      else let e = max (ilog2_ratio a b - 52) (- 1074);
               m = round_half_even (a * 2 ^ nat (- e)) (b * 2 ^ nat e)
           in if 971 < e \<or> (e = 971 \<and> 2 ^ 53 \<le> m) then Inf s else Fin s m e)"

text \<open>The conversion \<open>float64(x)\<close> of an int64.\<close>

definition f64_of_int64 :: "64 word \<Rightarrow> float64" where
  "f64_of_int64 x = round_f64 (sint x < 0) (nat \<bar>sint x\<bar>) 1"

fun f64_div :: "float64 \<Rightarrow> float64 \<Rightarrow> float64" where
  "f64_div NaN y = NaN"
| "f64_div x NaN = NaN"
| "f64_div (Inf s) (Inf t) = NaN"
| "f64_div (Inf s) (Fin t n f) = Inf (s \<noteq> t)"
| "f64_div (Fin s m e) (Inf t) = Fin (s \<noteq> t) 0 0"
| "f64_div (Fin s m e) (Fin t n f) =
     (if n = 0 then (if m = 0 then NaN else Inf (s \<noteq> t))
      else round_f64 (s \<noteq> t) (m * 2 ^ nat (e - f)) (n * 2 ^ nat (f - e)))"

fun f64_mul :: "float64 \<Rightarrow> float64 \<Rightarrow> float64" where
  "f64_mul NaN y = NaN"
| "f64_mul x NaN = NaN"
| "f64_mul (Inf s) (Inf t) = Inf (s \<noteq> t)"
| "f64_mul (Inf s) (Fin t n f) = (if n = 0 then NaN else Inf (s \<noteq> t))"
| "f64_mul (Fin s m e) (Inf t) = (if m = 0 then NaN else Inf (s \<noteq> t))"
| "f64_mul (Fin s m e) (Fin t n f) =
     round_f64 (s \<noteq> t) (m * n * 2 ^ nat (e + f)) (2 ^ nat (- (e + f)))"

text \<open>\<open>math.Pow(2, k)\<close> for a small natural \<open>k\<close> is the exact power, and the constant
  \<open>100\<close> in a float64 expression is the float64 100.\<close>

definition math_Pow2 :: "nat \<Rightarrow> float64" where
  "math_Pow2 k = Fin False 1 (int k)"

definition f64_100 :: float64 where
  "f64_100 = Fin False 100 0"

text \<open>\<open>math.Round\<close>: the nearest integer, a tie going away from zero; the sign stays.\<close>

fun math_Round :: "float64 \<Rightarrow> float64" where
  "math_Round NaN = NaN"
| "math_Round (Inf s) = Inf s"
| "math_Round (Fin s m e) =
     (if 0 \<le> e then Fin s m e
      else Fin s ((2 * m + 2 ^ nat (- e)) div (2 * 2 ^ nat (- e))) 0)"

text \<open>
  The verbs \<open>%.1f\<close> (\<open>prec = 1\<close>) and \<open>%.f\<close> (\<open>prec = 0\<close>): the exact decimal expansion
  of the float64, rounded to \<open>prec\<close> decimals with a tie going to the even digit; the
  sign is printed for every negative float64, and for the positive infinity.
\<close>

definition zero_pad :: "nat \<Rightarrow> string \<Rightarrow> string" where
  "zero_pad w s = replicate (w - length s) (CHR ''0'') @ s"

fun fmt_f :: "nat \<Rightarrow> float64 \<Rightarrow> string" where
  "fmt_f prec NaN = ''NaN''"
| "fmt_f prec (Inf s) = (if s then ''-Inf'' else ''+Inf'')"
| "fmt_f prec (Fin s m e) =
     (let t = round_half_even (m * 10 ^ prec * 2 ^ nat e) (2 ^ nat (- e))
      in (if s then ''-'' else [])
         @ show_nat (t div 10 ^ prec)
         @ (if prec = 0 then [] else CHR ''.'' # zero_pad prec (show_nat (t mod 10 ^ prec))))"

subsection \<open>SizeFormatter\<close>

text \<open>
  \<^verbatim>\<open>switch {
  case size > 1e12: return ui.orange.Sprintf("%.1f", float64(size)/math.Pow(2, 40)) + " TiB"
  case size > 1e9:  ... math.Pow(2, 30)) + " GiB"
  case size > 1e6:  ... math.Pow(2, 20)) + " MiB"
  case size > 1e3:  ... math.Pow(2, 10)) + " KiB"
  default: return ui.orange.Sprintf("%d", size) + " B" }\<close>
\<close>

definition formatSize :: "UI \<Rightarrow> 64 word \<Rightarrow> string" where
  "formatSize ui sz =
     (if 1000000000000 < sint sz then
        orange ui (fmt_f 1 (f64_div (f64_of_int64 sz) (math_Pow2 40))) @ '' TiB''
      else if 1000000000 < sint sz then
        orange ui (fmt_f 1 (f64_div (f64_of_int64 sz) (math_Pow2 30))) @ '' GiB''
      else if 1000000 < sint sz then
        orange ui (fmt_f 1 (f64_div (f64_of_int64 sz) (math_Pow2 20))) @ '' MiB''
      else if 1000 < sint sz then
        orange ui (fmt_f 1 (f64_div (f64_of_int64 sz) (math_Pow2 10))) @ '' KiB''
      else orange ui (show_int (sint sz)) @ '' B'')"

subsection \<open>The set of ignored paths\<close>

text \<open>
  \<^verbatim>\<open>ui.ignoreDirPaths = make(map[string]struct{}, len(paths))
  for _, path := range paths { ui.ignoreDirPaths[path] = struct{}{} }\<close>
\<close>

fun insert_paths :: "(string \<rightharpoonup> unit) \<Rightarrow> string list \<Rightarrow> (string \<rightharpoonup> unit)" where
  "insert_paths m [] = m"
| "insert_paths m (path # paths) = insert_paths (m(path \<mapsto> ())) paths"

definition SetIgnoreDirPaths :: "UI \<Rightarrow> string list \<Rightarrow> UI" where
  "SetIgnoreDirPaths ui paths = ui\<lparr>ignoreDirPaths := insert_paths Map.empty paths\<rparr>"

text \<open>
  \<^verbatim>\<open>_, ok := ui.ignoreDirPaths[path]; return ok\<close>
  The method has a pointer receiver, so it returns the receiver's state after the call
  together with the result.
\<close>

definition ShouldDirBeIgnored :: "UI \<Rightarrow> string \<Rightarrow> bool \<times> UI" where
  "ShouldDirBeIgnored ui path = (ignoreDirPaths ui path \<noteq> None, ui)"

subsection \<open>Runes and the verb \<open>%s\<close> with a width\<close>

text \<open>
  \<open>utf8.RuneCountInString\<close>: an ASCII byte, an invalid byte and a truncated or
  malformed sequence count as one rune each; a well-formed sequence of 2, 3 or 4 bytes
  counts as one. \<open>rune_size c cs\<close> is the number of bytes consumed at \<open>c # cs\<close>.
\<close>

definition rune_size :: "nat \<Rightarrow> nat list \<Rightarrow> nat" where
  "rune_size c cs =
     (if c < 0x80 then 1
      else if c < 0xC2 \<or> 0xF4 < c then 1
      else let n = (if c < 0xE0 then 2 else if c < 0xF0 then 3 else 4 :: nat);
               lo = (if c = 0xE0 then 0xA0 else if c = 0xF0 then 0x90 else 0x80);
               hi = (if c = 0xED then 0x9F else if c = 0xF4 then 0x8F else 0xBF)
           in if length cs < n - 1 then 1
              else if cs ! 0 < lo \<or> hi < cs ! 0 then 1
              else if n = 2 then 2
              else if cs ! 1 < 0x80 \<or> 0xBF < cs ! 1 then 1
              else if n = 3 then 3
              else if cs ! 2 < 0x80 \<or> 0xBF < cs ! 2 then 1
              else 4)"

text \<open>\<open>k\<close> is the number of bytes still to skip of the rune counted last.\<close>

fun count_runes :: "nat \<Rightarrow> nat list \<Rightarrow> nat" where
  "count_runes k [] = 0"
| "count_runes k (c # cs) =
     (if k = 0 then Suc (count_runes (rune_size c cs - 1) cs) else count_runes (k - 1) cs)"

definition RuneCountInString :: "string \<Rightarrow> nat" where
  "RuneCountInString s = count_runes 0 (map of_char s)"

text \<open>\<open>string(r)\<close> of a rune: its UTF-8 encoding, and that of U+FFFD for a value that
  is not a Unicode scalar value.\<close>

definition byte_char :: "nat \<Rightarrow> char" where
  "byte_char n =
     Char (odd n) (odd (n div 2)) (odd (n div 4)) (odd (n div 8))
          (odd (n div 16)) (odd (n div 32)) (odd (n div 64)) (odd (n div 128))"

definition string_of_rune :: "int \<Rightarrow> string" where
  "string_of_rune r =
     (let n = nat r
      in if r < 0 \<or> 0x10FFFF < r \<or> (0xD800 \<le> r \<and> r \<le> 0xDFFF) then
           [CHR 0xEF, CHR 0xBF, CHR 0xBD]
         else if n < 0x80 then [byte_char n]
         else if n < 0x800 then [byte_char (0xC0 + n div 64), byte_char (0x80 + n mod 64)]
         else if n < 0x10000 then
           [byte_char (0xE0 + n div 4096), byte_char (0x80 + n div 64 mod 64),
            byte_char (0x80 + n mod 64)]
         else
           [byte_char (0xF0 + n div 262144), byte_char (0x80 + n div 4096 mod 64),
            byte_char (0x80 + n div 64 mod 64), byte_char (0x80 + n mod 64)])"

text \<open>The verb \<open>%ws\<close> pads on the left with spaces to \<open>w\<close> runes.\<close>

definition fmt_s :: "nat \<Rightarrow> string \<Rightarrow> string" where
  "fmt_s w s = replicate (w - RuneCountInString s) (CHR '' '') @ s"

text \<open>
  A width written into a format by \<open>%d\<close> is read back by \<open>fmt\<close> digit by digit, and
  given up as soon as the number read so far exceeds \<open>10^6\<close> with a digit still to
  come; the rest of the format is then dropped, \<open>%!(NOVERB)\<close> is printed and the
  operands are listed as extra.
\<close>

definition width_parses :: "nat \<Rightarrow> bool" where
  "width_parses w = (w div 10 \<le> 1000000)"

fun extra_operands :: "string list \<Rightarrow> string" where
  "extra_operands [] = []"
| "extra_operands [a] = ''string='' @ a"
| "extra_operands (a # as) = ''string='' @ a @ '', '' @ extra_operands as"

text \<open>
  \<open>fmt.Sprintf(f, a, b, c, d, e, g)\<close> for the format
  \<open>f = fmt.Sprintf("%%%ds %%%ds %%%ds %%%ds %%%ds %%s\n", w1, w2, w3, w4, w5)\<close>.
\<close>

definition device_line ::
    "nat \<Rightarrow> nat \<Rightarrow> nat \<Rightarrow> nat \<Rightarrow> nat \<Rightarrow> string list \<Rightarrow> string" where
  "device_line w1 w2 w3 w4 w5 args =
     (if width_parses w1 then
        fmt_s w1 (args ! 0) @ '' '' @ fmt_s w2 (args ! 1) @ '' '' @ fmt_s w3 (args ! 2) @ '' ''
        @ fmt_s w4 (args ! 3) @ '' '' @ fmt_s w5 (args ! 4) @ '' '' @ args ! 5 @ [CHR 0x0A]
      else ''%!(NOVERB)%!(EXTRA '' @ extra_operands args @ '')'')"

subsection \<open>Device listing\<close>

text \<open>A \<open>device.Device\<close>, with the four fields that \<open>ListDevices\<close> reads; the sizes are
  passed to \<open>formatSize\<close>, so they are int64.\<close>

record Device =
  Name :: string
  MountPoint :: string
  Size :: "64 word"
  Free :: "64 word"

fun maxLength_loop :: "nat \<Rightarrow> Device list \<Rightarrow> (Device \<Rightarrow> string) \<Rightarrow> nat" where
  "maxLength_loop maxLen [] keyGetter = maxLen"
| "maxLength_loop maxLen (item # list) keyGetter =
     maxLength_loop
       (if maxLen < length (keyGetter item) then length (keyGetter item) else maxLen)
       list keyGetter"

definition maxLength :: "Device list \<Rightarrow> (Device \<Rightarrow> string) \<Rightarrow> nat" where
  "maxLength list keyGetter = maxLength_loop 0 list keyGetter"

definition maxInt :: "nat \<Rightarrow> nat \<Rightarrow> nat" where
  "maxInt x y = (if y < x then x else y)"

text \<open>
  \<^verbatim>\<open>usedPercent := math.Round(float64(device.Size-device.Free) / float64(device.Size) * 100)\<close>
\<close>

definition usedPercent :: "Device \<Rightarrow> float64" where
  "usedPercent device =
     math_Round (f64_mul (f64_div (f64_of_int64 (Size device - Free device))
                                  (f64_of_int64 (Size device))) f64_100)"

text \<open>The six operands of a device's row: name, size, used, free, used%, mount point.\<close>

definition device_cells :: "UI \<Rightarrow> Device \<Rightarrow> string list" where
  "device_cells ui device =
     [Name device,
      formatSize ui (Size device),
      formatSize ui (Size device - Free device),
      formatSize ui (Free device),
      red ui (fmt_f 0 (usedPercent device) @ ''%''),
      MountPoint device]"

definition maxDeviceNameLenght :: "Device list \<Rightarrow> nat" where
  "maxDeviceNameLenght devices = maxInt (maxLength devices Name) (length ''Devices'')"

text \<open>
  \<open>ListDevices\<close>: the argument is what \<open>getter.GetDevicesInfo()\<close> returned; the result is
  the error returned and the writes made to the output, one per \<open>Fprintf\<close>.
\<close>

definition ListDevices :: "UI \<Rightarrow> error + Device list \<Rightarrow> error option \<times> string list" where
  "ListDevices ui getter =
     (case getter of
        Inl err \<Rightarrow> (Some err, [])
      | Inr devices \<Rightarrow>
          (let sizeLength = (if useColors ui then 20 else 9);
               percentLength = (if useColors ui then 16 else 5)
           in (None,
               device_line (maxDeviceNameLenght devices) 9 9 9 5
                 [''Device'', ''Size'', ''Used'', ''Free'', ''Used%'', ''Mount point'']
               # map (\<lambda>device.
                        device_line (maxDeviceNameLenght devices) sizeLength sizeLength
                          sizeLength percentLength (device_cells ui device))
                     devices)))"

subsection \<open>The listing of entries\<close>

text \<open>
  Two library functions whose results are taken as given: \<open>filepath.Abs\<close> (its error
  is discarded by \<open>AnalyzePath\<close>), and \<open>fmt.Sprintf\<close> applied to a format without
  operands (\<open>AnalyzePath\<close> passes \<open>"/" + name\<close> of a directory as the format).
\<close>

record Stdlib =
  filepath_Abs :: "string \<Rightarrow> string"
  Sprintf_format :: "string \<Rightarrow> string"

text \<open>
  The body of the loop over \<open>dir.Files\<close>: one \<open>Fprintf\<close> with the format
  \<open>"%s %20s %s\n"\<close> (colours) or \<open>"%s %9s %s\n"\<close>.
\<close>

definition entry_size :: "UI \<Rightarrow> Item \<Rightarrow> 64 word" where
  "entry_size ui file = (if showApparentSize ui then GetSize file else GetUsage file)"

definition entry_line :: "Stdlib \<Rightarrow> UI \<Rightarrow> Item \<Rightarrow> string" where
  "entry_line lib ui file =
     (let w = (if useColors ui then 20 else 9)
      in if IsDir file then
           string_of_rune (GetFlag file) @ '' '' @ fmt_s w (formatSize ui (entry_size ui file))
           @ '' '' @ blue ui (Sprintf_format lib (''/'' @ GetName file)) @ [CHR 0x0A]
         else
           string_of_rune (GetFlag file) @ '' '' @ fmt_s w (formatSize ui (entry_size ui file))
           @ '' '' @ GetName file @ [CHR 0x0A])"

definition listing :: "Stdlib \<Rightarrow> UI \<Rightarrow> Item list \<Rightarrow> string list" where
  "listing lib ui files = map (entry_line lib ui) files"

text \<open>
  \<open>sort.Sort\<close> by its contract: the elements are permuted, and when \<open>Less\<close> is a strict
  weak ordering no element is \<open>Less\<close> than one before it. The library promises no more
  (``the sort is not guaranteed to be stable''), so \<open>sort_Sort lt xs ys\<close> holds for
  every \<open>ys\<close> that a call on \<open>xs\<close> may leave.
\<close>

definition strict_weak_order :: "('a \<Rightarrow> 'a \<Rightarrow> bool) \<Rightarrow> bool" where
  "strict_weak_order lt =
     ((\<forall>a. \<not> lt a a)
      \<and> (\<forall>a b c. lt a b \<and> lt b c \<longrightarrow> lt a c)
      \<and> (\<forall>a b c. \<not> lt a b \<and> \<not> lt b c \<longrightarrow> \<not> lt a c))"

definition sort_Sort :: "('a \<Rightarrow> 'a \<Rightarrow> bool) \<Rightarrow> 'a list \<Rightarrow> 'a list \<Rightarrow> bool" where
  "sort_Sort lt xs ys =
     (mset ys = mset xs
      \<and> (strict_weak_order lt \<longrightarrow> sorted_wrt (\<lambda>a b. \<not> lt b a) ys))"

subsection \<open>The progress line\<close>

text \<open>A snapshot \<open>analyze.CurrentProgress\<close>: the fields that \<open>updateProgress\<close> prints.\<close>

record CurrentProgress =
  ItemCount :: int
  TotalSize :: "64 word"

definition emptyRow :: string where
  "emptyRow = CHR 0x0D # replicate 100 (CHR '' '')"

definition progressRunes :: "int list" where
  "progressRunes =
     [0x2807, 0x280F, 0x280B, 0x2819, 0x2839, 0x2838, 0x283C, 0x2834, 0x2826, 0x2827]"

text \<open>\<^verbatim>\<open>fmt.Fprintf(ui.output, "\r %s ", string(progressRunes[i]))\<close>\<close>

definition spinner_text :: "nat \<Rightarrow> string" where
  "spinner_text i = CHR 0x0D # '' '' @ string_of_rune (progressRunes ! i) @ '' ''"

text \<open>
  \<^verbatim>\<open>fmt.Fprint(ui.output, "Scanning... Total items: "+
      ui.red.Sprint(progress.ItemCount)+" size: "+ui.formatSize(progress.TotalSize))\<close>
\<close>

definition scanning_text :: "UI \<Rightarrow> CurrentProgress \<Rightarrow> string" where
  "scanning_text ui progress =
     ''Scanning... Total items: '' @ red ui (show_int (ItemCount progress))
     @ '' size: '' @ formatSize ui (TotalSize progress)"

subsection \<open>AnalyzePath and updateProgress as concurrent activities\<close>

text \<open>
  A call of \<open>AnalyzePath\<close> runs up to three activities: the caller's goroutine, the
  goroutine of \<open>updateProgress\<close> and the goroutine of the scan. Each has a program
  counter; a step of the call is a step of one of them, or a change the analyzer makes
  to its two channels. The program counters follow the statements of the source.
\<close>

datatype main_pc =
    M_Stat            \<comment> \<open>\<open>abspath, _ := filepath.Abs(path); _, err := ui.pathChecker(abspath)\<close>\<close>
  | M_AddProgress     \<comment> \<open>\<open>wait.Add(1)\<close>, under \<open>if ui.showProgress\<close>\<close>
  | M_GoProgress      \<comment> \<open>\<open>go func() { defer wait.Done(); ui.updateProgress() }()\<close>\<close>
  | M_AddScan         \<comment> \<open>\<open>wait.Add(1)\<close>\<close>
  | M_GoScan          \<comment> \<open>\<open>go func() { defer wait.Done(); dir = ui.analyzer.AnalyzeDir(...) }()\<close>\<close>
  | M_Wait            \<comment> \<open>\<open>wait.Wait()\<close>\<close>
  | M_Render          \<comment> \<open>\<open>sort.Sort(dir.Files)\<close> and the loop over \<open>dir.Files\<close>\<close>
  | M_Returned "error option"   \<comment> \<open>\<open>return err\<close>, \<open>return nil\<close>\<close>
  | M_Panicked        \<comment> \<open>\<open>dir.Files\<close> on a nil \<open>dir\<close>\<close>

datatype poller_pc =
    P_NotStarted
  | P_Loop nat                     \<comment> \<open>top of the loop: \<open>fmt.Fprint(ui.output, emptyRow)\<close>\<close>
  | P_Select nat                   \<comment> \<open>the \<open>select\<close>\<close>
  | P_Render nat CurrentProgress   \<comment> \<open>the two writes after the \<open>select\<close>, the sleep, \<open>i++\<close>\<close>
  | P_Done                         \<comment> \<open>\<open>case <-doneChan: fmt.Fprint(ui.output, "\r"); return\<close>\<close>
  | P_Exit                         \<comment> \<open>the deferred \<open>wait.Done()\<close>\<close>
  | P_Finished

datatype scanner_pc =
    S_NotStarted
  | S_Running                      \<comment> \<open>\<open>dir = ui.analyzer.AnalyzeDir(abspath, ui.ShouldDirBeIgnored)\<close>\<close>
  | S_Exit                         \<comment> \<open>the deferred \<open>wait.Done()\<close>\<close>
  | S_Finished

datatype actor = Main | Poller | Scanner | Channels

text \<open>
  The state of a call: its two parameters, its locals (\<open>abspath\<close>, \<open>dir\<close>, the counter
  of the WaitGroup \<open>wait\<close>), the three program counters, the writes made to
  \<open>ui.output\<close> so far, and what a receive from each of the analyzer's channels would
  get at this moment (\<open>progressChan\<close>: a snapshot or nothing; \<open>doneChan\<close>: the
  completion signal or nothing).
\<close>

record state =
  path :: string
  arg2 :: "Dir option"
  abspath :: string
  dir :: "Dir option"
  wait :: int
  main :: main_pc
  poller :: poller_pc
  scanner :: scanner_pc
  written :: "string list"
  progressChan :: "CurrentProgress option"
  doneChan :: bool

definition AnalyzePath_call :: "string \<Rightarrow> Dir option \<Rightarrow> state" where
  "AnalyzePath_call p d =
     \<lparr> path = p, arg2 = d, abspath = [], dir = None, wait = 0,
       main = M_Stat, poller = P_NotStarted, scanner = S_NotStarted,
       written = [], progressChan = None, doneChan = False \<rparr>"

inductive step :: "Stdlib \<Rightarrow> UI \<Rightarrow> state \<Rightarrow> actor \<Rightarrow> state \<Rightarrow> bool"
  for lib :: Stdlib and ui :: UI where
  stat_error:
    "main s = M_Stat \<Longrightarrow> pathChecker ui (filepath_Abs lib (path s)) = Inl err \<Longrightarrow>
     step lib ui s Main
       (s\<lparr>abspath := filepath_Abs lib (path s), main := M_Returned (Some err)\<rparr>)"
| stat_ok:
    "main s = M_Stat \<Longrightarrow> pathChecker ui (filepath_Abs lib (path s)) = Inr info \<Longrightarrow>
     step lib ui s Main
       (s\<lparr>abspath := filepath_Abs lib (path s),
          main := (if showProgress ui then M_AddProgress else M_AddScan)\<rparr>)"
| add_progress:
    "main s = M_AddProgress \<Longrightarrow>
     step lib ui s Main (s\<lparr>wait := wait s + 1, main := M_GoProgress\<rparr>)"
| go_progress:
    "main s = M_GoProgress \<Longrightarrow>
     step lib ui s Main (s\<lparr>poller := P_Loop 0, main := M_AddScan\<rparr>)"
| add_scan:
    "main s = M_AddScan \<Longrightarrow>
     step lib ui s Main (s\<lparr>wait := wait s + 1, main := M_GoScan\<rparr>)"
| go_scan:
    "main s = M_GoScan \<Longrightarrow>
     step lib ui s Main (s\<lparr>scanner := S_Running, main := M_Wait\<rparr>)"
| wait_released:
    "main s = M_Wait \<Longrightarrow> wait s = 0 \<Longrightarrow>
     step lib ui s Main (s\<lparr>main := M_Render\<rparr>)"
| render:
    "main s = M_Render \<Longrightarrow> dir s = Some d \<Longrightarrow>
     sort_Sort (Files_Less (analyzer ui)) (Files d) ys \<Longrightarrow>
     step lib ui s Main
       (s\<lparr>dir := Some (d\<lparr>Files := ys\<rparr>), written := written s @ listing lib ui ys,
          main := M_Returned None\<rparr>)"
| render_nil:
    "main s = M_Render \<Longrightarrow> dir s = None \<Longrightarrow>
     step lib ui s Main (s\<lparr>main := M_Panicked\<rparr>)"
| loop_top:
    "poller s = P_Loop i \<Longrightarrow>
     step lib ui s Poller (s\<lparr>written := written s @ [emptyRow], poller := P_Select i\<rparr>)"
| select_progress:
    "poller s = P_Select i \<Longrightarrow> progressChan s = Some progress \<Longrightarrow>
     step lib ui s Poller (s\<lparr>progressChan := None, poller := P_Render i progress\<rparr>)"
| select_done:
    "poller s = P_Select i \<Longrightarrow> doneChan s \<Longrightarrow>
     step lib ui s Poller (s\<lparr>doneChan := False, poller := P_Done\<rparr>)"
| render_progress:
    "poller s = P_Render i progress \<Longrightarrow>
     step lib ui s Poller
       (s\<lparr>written := written s @ [spinner_text i, scanning_text ui progress],
          poller := P_Loop ((i + 1) mod 10)\<rparr>)"
| erase_line:
    "poller s = P_Done \<Longrightarrow>
     step lib ui s Poller (s\<lparr>written := written s @ [[CHR 0x0D]], poller := P_Exit\<rparr>)"
| poller_exit:
    "poller s = P_Exit \<Longrightarrow>
     step lib ui s Poller (s\<lparr>wait := wait s - 1, poller := P_Finished\<rparr>)"
| scan:
    "scanner s = S_Running \<Longrightarrow>
     step lib ui s Scanner
       (s\<lparr>dir := Some (AnalyzeDir (analyzer ui) (abspath s)
                         (\<lambda>p. fst (ShouldDirBeIgnored ui p))),
          scanner := S_Exit\<rparr>)"
| scanner_exit:
    "scanner s = S_Exit \<Longrightarrow>
     step lib ui s Scanner (s\<lparr>wait := wait s - 1, scanner := S_Finished\<rparr>)"
| channels:
    "step lib ui s Channels (s\<lparr>progressChan := p, doneChan := b\<rparr>)"

text \<open>The states that a call can reach from a state.\<close>

inductive run :: "Stdlib \<Rightarrow> UI \<Rightarrow> state \<Rightarrow> state \<Rightarrow> bool"
  for lib :: Stdlib and ui :: UI and s :: state where
  run_start: "run lib ui s s"
| run_step: "run lib ui s t \<Longrightarrow> step lib ui t a u \<Longrightarrow> run lib ui s u"

text \<open>\<open>AnalyzePath ui path arg2 (r, out)\<close>: the call can return \<open>r\<close> having written \<open>out\<close>.\<close>

definition AnalyzePath ::
    "Stdlib \<Rightarrow> UI \<Rightarrow> string \<Rightarrow> Dir option \<Rightarrow> error option \<times> string list \<Rightarrow> bool" where
  "AnalyzePath lib ui p d res =
     (\<exists>s. run lib ui (AnalyzePath_call p d) s
          \<and> main s = M_Returned (fst res) \<and> written s = snd res)"

text \<open>The tree that the scan goroutine of a call on \<open>p\<close> assigns to \<open>dir\<close>.\<close>

definition scanned :: "Stdlib \<Rightarrow> UI \<Rightarrow> string \<Rightarrow> Dir" where
  "scanned lib ui p =
     AnalyzeDir (analyzer ui) (filepath_Abs lib p) (\<lambda>q. fst (ShouldDirBeIgnored ui q))"

text \<open>
  How far the caller's goroutine has come, as a number, and the invariant that ties the
  WaitGroup counter to the program counters: the counter is the number of goroutines
  for which \<open>wait.Add(1)\<close> has run and the deferred \<open>wait.Done()\<close> has not.
\<close>

fun stage :: "main_pc \<Rightarrow> nat" where
  "stage M_Stat = 0"
| "stage (M_Returned (Some err)) = 0"
| "stage M_AddProgress = 1"
| "stage M_GoProgress = 2"
| "stage M_AddScan = 3"
| "stage M_GoScan = 4"
| "stage M_Wait = 5"
| "stage M_Render = 6"
| "stage (M_Returned None) = 7"
| "stage M_Panicked = 7"

definition barrier_inv :: "UI \<Rightarrow> state \<Rightarrow> bool" where
  "barrier_inv ui s =
     ((poller s \<noteq> P_NotStarted) = (showProgress ui \<and> 3 \<le> stage (main s))
      \<and> (scanner s \<noteq> S_NotStarted) = (5 \<le> stage (main s))
      \<and> (main s = M_AddProgress \<or> main s = M_GoProgress \<longrightarrow> showProgress ui)
      \<and> wait s =
          (if (main s = M_GoProgress \<or> (showProgress ui \<and> 3 \<le> stage (main s)))
              \<and> poller s \<noteq> P_Finished then 1 else 0)
          + (if 4 \<le> stage (main s) \<and> scanner s \<noteq> S_Finished then 1 else 0)
      \<and> (dir s \<noteq> None) = (scanner s = S_Exit \<or> scanner s = S_Finished)
      \<and> (6 \<le> stage (main s) \<longrightarrow>
            scanner s = S_Finished \<and> (showProgress ui \<longrightarrow> poller s = P_Finished))
      \<and> main s \<noteq> M_Panicked)"

text \<open>What the locals hold: \<open>abspath\<close> once it is assigned, and \<open>dir\<close> until it is
  sorted.\<close>

definition locals_inv :: "Stdlib \<Rightarrow> UI \<Rightarrow> state \<Rightarrow> bool" where
  "locals_inv lib ui s =
     ((main s \<noteq> M_Stat \<longrightarrow> abspath s = filepath_Abs lib (path s))
      \<and> (main s \<noteq> M_Returned None \<longrightarrow>
            dir s = None \<or> dir s = Some (scanned lib ui (path s))))"

text \<open>
  The writes of \<open>updateProgress\<close>: the blank row, the spinner, the text of a snapshot and
  the carriage return at the end. \<open>progress_only ui out\<close>: the writes \<open>out\<close> are all of
  that kind, and there are none without progress display.
\<close>

definition progress_write :: "UI \<Rightarrow> string \<Rightarrow> bool" where
  "progress_write ui t =
     (t = emptyRow \<or> t = [CHR 0x0D] \<or> (\<exists>i. t = spinner_text i)
      \<or> (\<exists>progress. t = scanning_text ui progress))"

definition progress_only :: "UI \<Rightarrow> string list \<Rightarrow> bool" where
  "progress_only ui out =
     ((\<forall>t\<in>set out. progress_write ui t) \<and> (\<not> showProgress ui \<longrightarrow> out = []))"

text \<open>
  What has been written: until the call returns, writes of \<open>updateProgress\<close> only; once
  it has returned nil, those and then the lines of the entries, in an order that
  \<open>sort.Sort\<close> may leave.
\<close>

definition listed :: "Stdlib \<Rightarrow> UI \<Rightarrow> state \<Rightarrow> bool" where
  "listed lib ui s =
     (\<exists>before ys. written s = before @ listing lib ui ys
        \<and> progress_only ui before
        \<and> sort_Sort (Files_Less (analyzer ui)) (Files (scanned lib ui (path s))) ys)"

definition output_inv :: "Stdlib \<Rightarrow> UI \<Rightarrow> state \<Rightarrow> bool" where
  "output_inv lib ui s =
     (if main s = M_Returned None then listed lib ui s else progress_only ui (written s))"

text \<open>The magnitude of a float64 as a real number, and the finite nonzero float64
  with a magnitude between two powers of two.\<close>

definition f64_mag :: "float64 \<Rightarrow> real" where
  "f64_mag x = (case x of Fin s m e \<Rightarrow> real m * 2 powi e | _ \<Rightarrow> 0)"

definition f64_sign :: "float64 \<Rightarrow> bool" where
  "f64_sign x = (case x of Fin s m e \<Rightarrow> s | Inf s \<Rightarrow> s | NaN \<Rightarrow> False)"

definition in_range :: "float64 \<Rightarrow> int \<Rightarrow> int \<Rightarrow> bool" where
  "in_range x l u =
     (\<exists>s m e. x = Fin s m e \<and> 0 < m \<and> 2 powi l \<le> f64_mag x \<and> f64_mag x \<le> 2 powi u)"

text \<open>The real number that a float64 stands for (0 for NaN and the infinities), and
  the percentage of the spec in exact arithmetic: used is size minus free (as int64),
  and the percentage is used / size times 100.\<close>

definition f64_real :: "float64 \<Rightarrow> real" where
  "f64_real x = (if f64_sign x then - f64_mag x else f64_mag x)"

definition exact_percent :: "Device \<Rightarrow> real" where
  "exact_percent device =
     real_of_int (sint (Size device - Free device)) / real_of_int (sint (Size device)) * 100"

subsection \<open>An example configuration\<close>

text \<open>
  The ordering of \<open>analyze.Files\<close> is declared in the package \<open>analyze\<close>, not in
  stdout.go: the model takes it as the field \<open>Files_Less\<close> of the analyzer. Where a
  result or an example needs a particular ordering, it is this one, by on-disk usage,
  descending: \<open>Less(i, j)\<close> when the usage of entry \<open>i\<close> is greater than that of
  entry \<open>j\<close>.
\<close>

definition usage_Less :: "Item \<Rightarrow> Item \<Rightarrow> bool" where
  "usage_Less a b = (sint (GetUsage b) < sint (GetUsage a))"

text \<open>A library for the examples: the paths are absolute already, and the names
  contain no verb, so that \<open>fmt.Sprintf\<close> leaves them as they are.\<close>

definition example_lib :: Stdlib where
  "example_lib = \<lparr> filepath_Abs = (\<lambda>p. p), Sprintf_format = (\<lambda>f. f) \<rparr>"

text \<open>A UI without colours, whose analyzer finds the given entries under every path
  and whose path check fails for \<open>/missing\<close> only.\<close>

definition example_ui :: "bool \<Rightarrow> bool \<Rightarrow> Item list \<Rightarrow> UI" where
  "example_ui progress apparent entries =
     \<lparr> analyzer = \<lparr> AnalyzeDir = (\<lambda>p ignore. \<lparr> Files = entries \<rparr>), Files_Less = usage_Less \<rparr>,
       ignoreDirPaths = Map.empty, useColors = False, showProgress = progress,
       showApparentSize = apparent,
       red = (\<lambda>t. t), orange = (\<lambda>t. t), blue = (\<lambda>t. t),
       pathChecker = (\<lambda>p. if p = ''/missing'' then Inl (Err ''no such file or directory'')
                          else Inr FileInfo) \<rparr>"

definition example_entry :: "string \<Rightarrow> int \<Rightarrow> int \<Rightarrow> Item" where
  "example_entry n sz us =
     \<lparr> GetName = n, GetSize = word_of_int sz, GetUsage = word_of_int us, IsDir = False,
       GetFlag = 32 \<rparr>"

text \<open>A snapshot, and a state of a call on \<open>/data\<close> with the example analyzer (that finds
  no entries) after the scan goroutine has finished.\<close>

definition example_progress :: CurrentProgress where
  "example_progress = \<lparr> ItemCount = 3, TotalSize = 2048 \<rparr>"

definition example_state ::
    "main_pc \<Rightarrow> poller_pc \<Rightarrow> int \<Rightarrow> string list \<Rightarrow> CurrentProgress option \<Rightarrow> bool \<Rightarrow> state"
    where
  "example_state m po w out pc dc =
     \<lparr> path = ''/data'', arg2 = None, abspath = ''/data'', dir = Some \<lparr> Files = [] \<rparr>,
       wait = w, main = m, poller = po, scanner = S_Finished, written = out,
       progressChan = pc, doneChan = dc \<rparr>"

definition no_size :: "int \<Rightarrow> Device" where
  "no_size free = \<lparr> Name = ''tmpfs'', MountPoint = ''/run'', Size = 0, Free = word_of_int free \<rparr>"

definition sda1 :: Device where
  "sda1 = \<lparr> Name = ''sda1'', MountPoint = ''/'', Size = 1000, Free = 400 \<rparr>"

definition sdb1 :: Device where
  "sdb1 = \<lparr> Name = ''sdb1'', MountPoint = ''/data'', Size = 214748364800, Free = 91268055040 \<rparr>"

section \<open>Properties\<close>

subsection \<open>Evaluation\<close>

lemma replicate_numeral: "replicate (numeral k) x = x # replicate (pred_numeral k) x"
  by (simp add: numeral_eq_Suc)

lemmas f64_eval = round_f64_def ilog2_ratio_def bitlen.simps round_half_even_def Let_def
  f64_of_int64_def math_Pow2_def f64_100_def show_nat.simps zero_pad_def digit_char_def
  show_int_def

lemmas fmt_eval = fmt_s_def RuneCountInString_def rune_size_def replicate_numeral
  device_line_def width_parses_def

subsection \<open>Properties of the set of ignored paths\<close>

lemma insert_paths_dom: "dom (insert_paths m paths) = dom m \<union> set paths"
  by (induction paths arbitrary: m) auto

text \<open>
  C9: after \<open>SetIgnoreDirPaths paths\<close>, \<open>ShouldDirBeIgnored p\<close> is true exactly for the
  members of \<open>paths\<close>; the lookup leaves the UI (and so the set) unchanged; and a
  second \<open>SetIgnoreDirPaths\<close> replaces the paths of the first.
\<close>

theorem ShouldDirBeIgnored_iff:
  "fst (ShouldDirBeIgnored (SetIgnoreDirPaths ui paths) p) = (p \<in> set paths)
   \<and> snd (ShouldDirBeIgnored ui' p) = ui'
   \<and> fst (ShouldDirBeIgnored (SetIgnoreDirPaths (SetIgnoreDirPaths ui old) paths) p)
       = (p \<in> set paths)"
proof -
  have d: "\<And>u. (ignoreDirPaths (SetIgnoreDirPaths u paths) p \<noteq> None) = (p \<in> set paths)"
    using insert_paths_dom [of Map.empty paths]
    by (auto simp: SetIgnoreDirPaths_def dom_def)
  show ?thesis
    using d by (simp add: ShouldDirBeIgnored_def)
qed

subsection \<open>SizeFormatter\<close>



subsection \<open>The barrier of AnalyzePath\<close>

lemma barrier_inv_call: "barrier_inv ui (AnalyzePath_call p d)"
  by (simp add: barrier_inv_def AnalyzePath_call_def)

lemma locals_inv_call: "locals_inv lib ui (AnalyzePath_call p d)"
  by (simp add: locals_inv_def AnalyzePath_call_def)

lemma barrier_inv_step: "step lib ui s a t \<Longrightarrow> barrier_inv ui s \<Longrightarrow> barrier_inv ui t"
  by (induction rule: step.induct) (auto simp: barrier_inv_def split: if_splits)

lemma step_path: "step lib ui s a t \<Longrightarrow> path t = path s"
  by (induction rule: step.induct) simp_all

lemma run_path: "run lib ui s t \<Longrightarrow> path t = path s"
  by (induction rule: run.induct) (simp_all add: step_path)

lemma locals_inv_step:
  "step lib ui s a t \<Longrightarrow> barrier_inv ui s \<Longrightarrow> locals_inv lib ui s \<Longrightarrow> locals_inv lib ui t"
proof (induction rule: step.induct)
  case (scan s)
  then have "main s \<noteq> M_Stat"
    by (auto simp: barrier_inv_def)
  with scan show ?case
    by (simp add: locals_inv_def scanned_def)
qed (simp_all add: locals_inv_def)

lemma invs_run:
  "run lib ui s t \<Longrightarrow> barrier_inv ui s \<Longrightarrow> locals_inv lib ui s \<Longrightarrow>
   barrier_inv ui t \<and> locals_inv lib ui t"
  by (induction rule: run.induct) (auto intro: locals_inv_step barrier_inv_step)

lemma invs_call:
  "run lib ui (AnalyzePath_call p d) s \<Longrightarrow> barrier_inv ui s \<and> locals_inv lib ui s"
  using invs_run barrier_inv_call locals_inv_call by blast

lemma step_returned: "step lib ui s a t \<Longrightarrow> main s = M_Returned r \<Longrightarrow> main t = M_Returned r"
  by (induction rule: step.induct) simp_all

lemma progress_only_step:
  assumes "step lib ui s a t" and "barrier_inv ui s" and "progress_only ui (written s)"
    and "main t \<noteq> M_Returned None"
  shows "progress_only ui (written t)"
  using assms
proof (induction rule: step.induct)
  case (loop_top s i)
  then have "showProgress ui"
    by (auto simp: barrier_inv_def)
  with loop_top show ?case
    by (simp add: progress_only_def progress_write_def)
next
  case (render_progress s i progress)
  then have "showProgress ui"
    by (auto simp: barrier_inv_def)
  with render_progress show ?case
    by (auto simp: progress_only_def progress_write_def)
next
  case (erase_line s)
  then have "showProgress ui"
    by (auto simp: barrier_inv_def)
  with erase_line show ?case
    by (simp add: progress_only_def progress_write_def)
qed simp_all

lemma listed_step:
  assumes "step lib ui s a t" and "barrier_inv ui s" and "locals_inv lib ui s"
    and "output_inv lib ui s" and "main t = M_Returned None"
  shows "listed lib ui t"
  using assms
proof (induction rule: step.induct)
  case (render s d ys)
  then have "dir s = Some (scanned lib ui (path s))" and "progress_only ui (written s)"
    by (simp_all add: locals_inv_def output_inv_def)
  with render show ?case
    by (auto simp: listed_def)
qed (auto simp: listed_def output_inv_def barrier_inv_def split: if_splits)

lemma output_inv_step:
  assumes "step lib ui s a t" and "barrier_inv ui s" and "locals_inv lib ui s"
    and "output_inv lib ui s"
  shows "output_inv lib ui t"
proof (cases "main t = M_Returned None")
  case True
  with listed_step [OF assms] show ?thesis
    by (simp add: output_inv_def)
next
  case False
  with step_returned [OF assms(1), of None] have "main s \<noteq> M_Returned None"
    by auto
  with assms(4) have "progress_only ui (written s)"
    by (simp add: output_inv_def)
  from progress_only_step [OF assms(1,2) this False] False show ?thesis
    by (simp add: output_inv_def)
qed

lemma output_inv_run:
  assumes "run lib ui s t" and "barrier_inv ui s" and "locals_inv lib ui s"
    and "output_inv lib ui s"
  shows "output_inv lib ui t"
  using assms
proof (induction rule: run.induct)
  case run_start
  then show ?case by simp
next
  case (run_step t a u)
  then have "barrier_inv ui t \<and> locals_inv lib ui t"
    using invs_run by blast
  with run_step show ?case
    using output_inv_step by blast
qed

lemma output_inv_call: "output_inv lib ui (AnalyzePath_call p d)"
  by (simp add: output_inv_def progress_only_def AnalyzePath_call_def)

subsection \<open>Runs of AnalyzePath\<close>

lemma run_step': "run lib ui s t \<Longrightarrow> step lib ui t a u' \<Longrightarrow> u' = u \<Longrightarrow> run lib ui s u"
  by (auto intro: run_step)

text \<open>A run without progress display, up to the barrier.\<close>

lemma run_quiet:
  assumes ok: "pathChecker ui (filepath_Abs lib p) = Inr info"
    and quiet: "\<not> showProgress ui"
  shows "run lib ui (AnalyzePath_call p d)
           \<lparr> path = p, arg2 = d, abspath = filepath_Abs lib p, dir = Some (scanned lib ui p),
             wait = 0, main = M_Render, poller = P_NotStarted, scanner = S_Finished,
             written = [], progressChan = None, doneChan = False \<rparr>"
proof -
  let ?A = "filepath_Abs lib p"
  have 1: "run lib ui (AnalyzePath_call p d)
           \<lparr> path = p, arg2 = d, abspath = ?A, dir = None,
             wait = 0, main = M_AddScan, poller = P_NotStarted, scanner = S_NotStarted,
             written = [], progressChan = None, doneChan = False \<rparr>"
    by (rule run_step' [OF run_start stat_ok [where info = info]])
       (simp_all add: AnalyzePath_call_def ok quiet)
  have 2: "run lib ui (AnalyzePath_call p d)
           \<lparr> path = p, arg2 = d, abspath = ?A, dir = None,
             wait = 1, main = M_GoScan, poller = P_NotStarted, scanner = S_NotStarted,
             written = [], progressChan = None, doneChan = False \<rparr>"
    by (rule run_step' [OF 1 add_scan]) simp_all
  have 3: "run lib ui (AnalyzePath_call p d)
           \<lparr> path = p, arg2 = d, abspath = ?A, dir = None,
             wait = 1, main = M_Wait, poller = P_NotStarted, scanner = S_Running,
             written = [], progressChan = None, doneChan = False \<rparr>"
    by (rule run_step' [OF 2 go_scan]) simp_all
  have 4: "run lib ui (AnalyzePath_call p d)
           \<lparr> path = p, arg2 = d, abspath = ?A, dir = Some (scanned lib ui p),
             wait = 1, main = M_Wait, poller = P_NotStarted, scanner = S_Exit,
             written = [], progressChan = None, doneChan = False \<rparr>"
    by (rule run_step' [OF 3 scan]) (simp_all add: scanned_def)
  have 5: "run lib ui (AnalyzePath_call p d)
           \<lparr> path = p, arg2 = d, abspath = ?A, dir = Some (scanned lib ui p),
             wait = 0, main = M_Wait, poller = P_NotStarted, scanner = S_Finished,
             written = [], progressChan = None, doneChan = False \<rparr>"
    by (rule run_step' [OF 4 scanner_exit]) simp_all
  show ?thesis
    by (rule run_step' [OF 5 wait_released]) simp_all
qed

text \<open>Without progress display, the call can return nil with the lines of any order
  that \<open>sort.Sort\<close> may leave.\<close>

lemma AnalyzePath_quiet:
  assumes ok: "pathChecker ui (filepath_Abs lib p) = Inr info"
    and quiet: "\<not> showProgress ui"
    and srt: "sort_Sort (Files_Less (analyzer ui)) (Files (scanned lib ui p)) ys"
  shows "AnalyzePath lib ui p d (None, listing lib ui ys)"
proof -
  have "run lib ui (AnalyzePath_call p d)
           \<lparr> path = p, arg2 = d, abspath = filepath_Abs lib p,
             dir = Some ((scanned lib ui p)\<lparr>Files := ys\<rparr>),
             wait = 0, main = M_Returned None, poller = P_NotStarted, scanner = S_Finished,
             written = listing lib ui ys, progressChan = None, doneChan = False \<rparr>"
    by (rule run_step' [OF run_quiet [OF ok quiet] render [where ys = ys and d = "scanned lib ui p"]])
       (simp_all add: srt)
  then show ?thesis
    unfolding AnalyzePath_def by force
qed

text \<open>A run with progress display in which a snapshot and the completion signal are
  ready together when the poller reaches its \<open>select\<close> for the first time.\<close>

lemma run_both_ready:
  assumes ok: "pathChecker ui (filepath_Abs lib p) = Inr info"
    and loud: "showProgress ui"
  shows "run lib ui (AnalyzePath_call p d)
           \<lparr> path = p, arg2 = d, abspath = filepath_Abs lib p, dir = Some (scanned lib ui p),
             wait = 1, main = M_Wait, poller = P_Select 0, scanner = S_Finished,
             written = [emptyRow], progressChan = Some progress, doneChan = True \<rparr>"
proof -
  let ?A = "filepath_Abs lib p"
  have 1: "run lib ui (AnalyzePath_call p d)
           \<lparr> path = p, arg2 = d, abspath = ?A, dir = None,
             wait = 0, main = M_AddProgress, poller = P_NotStarted, scanner = S_NotStarted,
             written = [], progressChan = None, doneChan = False \<rparr>"
    by (rule run_step' [OF run_start stat_ok [where info = info]])
       (simp_all add: AnalyzePath_call_def ok loud)
  have 2: "run lib ui (AnalyzePath_call p d)
           \<lparr> path = p, arg2 = d, abspath = ?A, dir = None,
             wait = 1, main = M_GoProgress, poller = P_NotStarted, scanner = S_NotStarted,
             written = [], progressChan = None, doneChan = False \<rparr>"
    by (rule run_step' [OF 1 add_progress]) simp_all
  have 3: "run lib ui (AnalyzePath_call p d)
           \<lparr> path = p, arg2 = d, abspath = ?A, dir = None,
             wait = 1, main = M_AddScan, poller = P_Loop 0, scanner = S_NotStarted,
             written = [], progressChan = None, doneChan = False \<rparr>"
    by (rule run_step' [OF 2 go_progress]) simp_all
  have 4: "run lib ui (AnalyzePath_call p d)
           \<lparr> path = p, arg2 = d, abspath = ?A, dir = None,
             wait = 2, main = M_GoScan, poller = P_Loop 0, scanner = S_NotStarted,
             written = [], progressChan = None, doneChan = False \<rparr>"
    by (rule run_step' [OF 3 add_scan]) simp_all
  have 5: "run lib ui (AnalyzePath_call p d)
           \<lparr> path = p, arg2 = d, abspath = ?A, dir = None,
             wait = 2, main = M_Wait, poller = P_Loop 0, scanner = S_Running,
             written = [], progressChan = None, doneChan = False \<rparr>"
    by (rule run_step' [OF 4 go_scan]) simp_all
  have 6: "run lib ui (AnalyzePath_call p d)
           \<lparr> path = p, arg2 = d, abspath = ?A, dir = Some (scanned lib ui p),
             wait = 2, main = M_Wait, poller = P_Loop 0, scanner = S_Exit,
             written = [], progressChan = None, doneChan = False \<rparr>"
    by (rule run_step' [OF 5 scan]) (simp_all add: scanned_def)
  have 7: "run lib ui (AnalyzePath_call p d)
           \<lparr> path = p, arg2 = d, abspath = ?A, dir = Some (scanned lib ui p),
             wait = 1, main = M_Wait, poller = P_Loop 0, scanner = S_Finished,
             written = [], progressChan = None, doneChan = False \<rparr>"
    by (rule run_step' [OF 6 scanner_exit]) simp_all
  have 8: "run lib ui (AnalyzePath_call p d)
           \<lparr> path = p, arg2 = d, abspath = ?A, dir = Some (scanned lib ui p),
             wait = 1, main = M_Wait, poller = P_Select 0, scanner = S_Finished,
             written = [emptyRow], progressChan = None, doneChan = False \<rparr>"
    by (rule run_step' [OF 7 loop_top]) simp_all
  show ?thesis
    by (rule run_step' [OF 8 channels [where p = "Some progress" and b = True]]) simp_all
qed


text \<open>The same run continued: the poller takes the snapshot, draws it, takes the
  completion signal in the next round, erases the line and ends; the caller passes
  the barrier.\<close>

lemma run_progress_drawn:
  assumes ok: "pathChecker ui (filepath_Abs lib p) = Inr info"
    and loud: "showProgress ui"
  shows "run lib ui (AnalyzePath_call p d)
           \<lparr> path = p, arg2 = d, abspath = filepath_Abs lib p, dir = Some (scanned lib ui p),
             wait = 0, main = M_Render, poller = P_Finished, scanner = S_Finished,
             written = [emptyRow, spinner_text 0, scanning_text ui progress, emptyRow,
                        [CHR 0x0D]],
             progressChan = None, doneChan = False \<rparr>"
proof -
  let ?A = "filepath_Abs lib p"
  note 0 = run_both_ready [OF ok loud, of d progress]
  have 1: "run lib ui (AnalyzePath_call p d)
           \<lparr> path = p, arg2 = d, abspath = ?A, dir = Some (scanned lib ui p),
             wait = 1, main = M_Wait, poller = P_Render 0 progress, scanner = S_Finished,
             written = [emptyRow], progressChan = None, doneChan = True \<rparr>"
    by (rule run_step' [OF 0 select_progress [where progress = progress]]) simp_all
  have 2: "run lib ui (AnalyzePath_call p d)
           \<lparr> path = p, arg2 = d, abspath = ?A, dir = Some (scanned lib ui p),
             wait = 1, main = M_Wait, poller = P_Loop 1, scanner = S_Finished,
             written = [emptyRow, spinner_text 0, scanning_text ui progress],
             progressChan = None, doneChan = True \<rparr>"
    by (rule run_step' [OF 1 render_progress [where i = 0 and progress = progress]]) simp_all
  have 3: "run lib ui (AnalyzePath_call p d)
           \<lparr> path = p, arg2 = d, abspath = ?A, dir = Some (scanned lib ui p),
             wait = 1, main = M_Wait, poller = P_Select 1, scanner = S_Finished,
             written = [emptyRow, spinner_text 0, scanning_text ui progress, emptyRow],
             progressChan = None, doneChan = True \<rparr>"
    by (rule run_step' [OF 2 loop_top]) simp_all
  have 4: "run lib ui (AnalyzePath_call p d)
           \<lparr> path = p, arg2 = d, abspath = ?A, dir = Some (scanned lib ui p),
             wait = 1, main = M_Wait, poller = P_Done, scanner = S_Finished,
             written = [emptyRow, spinner_text 0, scanning_text ui progress, emptyRow],
             progressChan = None, doneChan = False \<rparr>"
    by (rule run_step' [OF 3 select_done]) simp_all
  have 5: "run lib ui (AnalyzePath_call p d)
           \<lparr> path = p, arg2 = d, abspath = ?A, dir = Some (scanned lib ui p),
             wait = 1, main = M_Wait, poller = P_Exit, scanner = S_Finished,
             written = [emptyRow, spinner_text 0, scanning_text ui progress, emptyRow,
                        [CHR 0x0D]],
             progressChan = None, doneChan = False \<rparr>"
    by (rule run_step' [OF 4 erase_line]) simp_all
  have 6: "run lib ui (AnalyzePath_call p d)
           \<lparr> path = p, arg2 = d, abspath = ?A, dir = Some (scanned lib ui p),
             wait = 0, main = M_Wait, poller = P_Finished, scanner = S_Finished,
             written = [emptyRow, spinner_text 0, scanning_text ui progress, emptyRow,
                        [CHR 0x0D]],
             progressChan = None, doneChan = False \<rparr>"
    by (rule run_step' [OF 5 poller_exit]) simp_all
  show ?thesis
    by (rule run_step' [OF 6 wait_released]) simp_all
qed


text \<open>
  C1: in every state that a call of \<open>AnalyzePath\<close> reaches, if the caller is past
  \<open>wait.Wait()\<close> (about to sort and render, or returned nil), then the scan goroutine
  has finished and has assigned \<open>dir\<close>, the WaitGroup counter is 0, and the progress
  goroutine has finished when \<open>showProgress\<close> is set and was never started when it is
  not; without \<open>showProgress\<close> the progress goroutine is never started at all; \<open>dir\<close>
  is never read while nil; and the caller changes \<open>dir\<close> or writes to the output
  only in the step after the barrier.
\<close>

theorem AnalyzePath_barrier:
  assumes "run lib ui (AnalyzePath_call p d) s"
  shows "(main s = M_Render \<or> main s = M_Returned None \<longrightarrow>
            scanner s = S_Finished \<and> dir s \<noteq> None \<and> wait s = 0
            \<and> poller s = (if showProgress ui then P_Finished else P_NotStarted))
         \<and> (\<not> showProgress ui \<longrightarrow> poller s = P_NotStarted)
         \<and> main s \<noteq> M_Panicked
         \<and> (\<forall>t. step lib ui s Main t \<and> (written t \<noteq> written s \<or> dir t \<noteq> dir s)
                \<longrightarrow> main s = M_Render)"
proof -
  from assms have inv: "barrier_inv ui s"
    using invs_call by blast
  have a: "main s = M_Render \<or> main s = M_Returned None \<longrightarrow>
            scanner s = S_Finished \<and> dir s \<noteq> None \<and> wait s = 0
            \<and> poller s = (if showProgress ui then P_Finished else P_NotStarted)"
    using inv by (auto simp: barrier_inv_def)
  have b: "\<not> showProgress ui \<longrightarrow> poller s = P_NotStarted"
    using inv by (auto simp: barrier_inv_def)
  have c: "main s \<noteq> M_Panicked"
    using inv by (simp add: barrier_inv_def)
  have e: "\<forall>t. step lib ui s Main t \<and> (written t \<noteq> written s \<or> dir t \<noteq> dir s)
                \<longrightarrow> main s = M_Render"
    by (auto elim: step.cases)
  from a b c e show ?thesis
    by blast
qed

theorem AnalyzePath_barrier_witness:
  "\<exists>s. run example_lib (example_ui True False []) (AnalyzePath_call ''/data'' None) s
       \<and> main s = M_Render \<and> scanner s = S_Finished \<and> poller s = P_Finished
       \<and> dir s \<noteq> None \<and> wait s = 0"
proof -
  have ok: "pathChecker (example_ui True False []) (filepath_Abs example_lib ''/data'')
              = Inr FileInfo"
    by (simp add: example_ui_def example_lib_def)
  have loud: "showProgress (example_ui True False [])"
    by (simp add: example_ui_def)
  note r = run_progress_drawn [OF ok loud, of None "\<lparr>ItemCount = 3, TotalSize = 2048\<rparr>"]
  from AnalyzePath_barrier [OF r] r loud show ?thesis
    by (intro exI conjI) (assumption, simp_all)
qed

subsection \<open>A failed path check\<close>

lemma stat_error_run:
  assumes "pathChecker ui (filepath_Abs lib p) = Inl err"
    and "run lib ui (AnalyzePath_call p d) s"
  shows "written s = [] \<and> poller s = P_NotStarted \<and> scanner s = S_NotStarted
         \<and> wait s = 0 \<and> dir s = None \<and> path s = p
         \<and> (main s = M_Stat \<or> main s = M_Returned (Some err))"
  using assms(2)
proof (induction rule: run.induct)
  case run_start
  then show ?case
    by (simp add: AnalyzePath_call_def)
next
  case (run_step t a u)
  from run_step.hyps(2) run_step.IH assms(1) show ?case
    by (induction rule: step.induct) auto
qed

text \<open>
  C5: if the path check fails with \<open>err\<close>, the call can return \<open>err\<close> with nothing
  written, it returns nothing else, the first step of the caller is that return, and in
  no state that the call reaches has a goroutine been started, the WaitGroup been
  touched, \<open>dir\<close> been assigned or anything been written.
\<close>

theorem AnalyzePath_stat_error:
  assumes "pathChecker ui (filepath_Abs lib p) = Inl err"
  shows "AnalyzePath lib ui p d (Some err, [])
         \<and> (\<forall>res. AnalyzePath lib ui p d res \<longrightarrow> res = (Some err, []))
         \<and> (\<forall>t. step lib ui (AnalyzePath_call p d) Main t \<longrightarrow> main t = M_Returned (Some err))
         \<and> (\<forall>s. run lib ui (AnalyzePath_call p d) s \<longrightarrow>
               written s = [] \<and> poller s = P_NotStarted \<and> scanner s = S_NotStarted
               \<and> wait s = 0 \<and> dir s = None)"
proof -
  have "step lib ui (AnalyzePath_call p d) Main
          ((AnalyzePath_call p d)\<lparr>abspath := filepath_Abs lib (path (AnalyzePath_call p d)),
                                 main := M_Returned (Some err)\<rparr>)"
    by (rule stat_error) (simp_all add: AnalyzePath_call_def assms)
  then have "run lib ui (AnalyzePath_call p d)
          ((AnalyzePath_call p d)\<lparr>abspath := filepath_Abs lib (path (AnalyzePath_call p d)),
                                 main := M_Returned (Some err)\<rparr>)"
    using run_start run_step by blast
  then have a: "AnalyzePath lib ui p d (Some err, [])"
    unfolding AnalyzePath_def by (force simp: AnalyzePath_call_def)
  have b: "\<forall>res. AnalyzePath lib ui p d res \<longrightarrow> res = (Some err, [])"
  proof (intro allI impI)
    fix res
    assume "AnalyzePath lib ui p d res"
    then obtain s where r: "run lib ui (AnalyzePath_call p d) s"
      and m: "main s = M_Returned (fst res)" and w: "written s = snd res"
      unfolding AnalyzePath_def by blast
    from stat_error_run [OF assms r] m w show "res = (Some err, [])"
      by (auto simp: prod_eq_iff)
  qed
  have c: "\<forall>t. step lib ui (AnalyzePath_call p d) Main t \<longrightarrow> main t = M_Returned (Some err)"
    using assms by (auto elim!: step.cases simp: AnalyzePath_call_def)
  have e: "\<forall>s. run lib ui (AnalyzePath_call p d) s \<longrightarrow>
               written s = [] \<and> poller s = P_NotStarted \<and> scanner s = S_NotStarted
               \<and> wait s = 0 \<and> dir s = None"
    using stat_error_run [OF assms] by blast
  from a b c e show ?thesis
    by blast
qed

theorem AnalyzePath_stat_error_witness:
  "AnalyzePath example_lib (example_ui True False []) ''/missing'' None
     (Some (Err ''no such file or directory''), [])
   \<and> \<not> AnalyzePath example_lib (example_ui True False []) ''/missing'' None (None, [])"
proof -
  have failed: "pathChecker (example_ui True False []) (filepath_Abs example_lib ''/missing'')
              = Inl (Err ''no such file or directory'')"
    by (simp add: example_ui_def example_lib_def)
  from AnalyzePath_stat_error [OF failed, of None] show ?thesis
    by auto
qed

subsection \<open>The second parameter\<close>

lemma step_arg2: "step lib ui s a t \<Longrightarrow> step lib ui (s\<lparr>arg2 := d\<rparr>) a (t\<lparr>arg2 := d\<rparr>)"
proof (induction rule: step.induct)
  case (stat_error s err)
  then show ?case
    using step.stat_error [of "s\<lparr>arg2 := d\<rparr>" ui lib err] by (cases s) simp
next
  case (stat_ok s info)
  then show ?case
    using step.stat_ok [of "s\<lparr>arg2 := d\<rparr>" ui lib info] by (cases s) simp
next
  case (add_progress s)
  then show ?case
    using step.add_progress [of "s\<lparr>arg2 := d\<rparr>" lib ui] by (cases s) simp
next
  case (go_progress s)
  then show ?case
    using step.go_progress [of "s\<lparr>arg2 := d\<rparr>" lib ui] by (cases s) simp
next
  case (add_scan s)
  then show ?case
    using step.add_scan [of "s\<lparr>arg2 := d\<rparr>" lib ui] by (cases s) simp
next
  case (go_scan s)
  then show ?case
    using step.go_scan [of "s\<lparr>arg2 := d\<rparr>" lib ui] by (cases s) simp
next
  case (wait_released s)
  then show ?case
    using step.wait_released [of "s\<lparr>arg2 := d\<rparr>" lib ui] by (cases s) simp
next
  case (render s d' ys)
  then show ?case
    using step.render [of "s\<lparr>arg2 := d\<rparr>" d' ui ys lib] by (cases s) simp
next
  case (render_nil s)
  then show ?case
    using step.render_nil [of "s\<lparr>arg2 := d\<rparr>" lib ui] by (cases s) simp
next
  case (loop_top s i)
  then show ?case
    using step.loop_top [of "s\<lparr>arg2 := d\<rparr>" i lib ui] by (cases s) simp
next
  case (select_progress s i progress)
  then show ?case
    using step.select_progress [of "s\<lparr>arg2 := d\<rparr>" i progress lib ui] by (cases s) simp
next
  case (select_done s i)
  then show ?case
    using step.select_done [of "s\<lparr>arg2 := d\<rparr>" i lib ui] by (cases s) simp
next
  case (render_progress s i progress)
  then show ?case
    using step.render_progress [of "s\<lparr>arg2 := d\<rparr>" i progress lib ui] by (cases s) simp
next
  case (erase_line s)
  then show ?case
    using step.erase_line [of "s\<lparr>arg2 := d\<rparr>" lib ui] by (cases s) simp
next
  case (poller_exit s)
  then show ?case
    using step.poller_exit [of "s\<lparr>arg2 := d\<rparr>" lib ui] by (cases s) simp
next
  case (scan s)
  then show ?case
    using step.scan [of "s\<lparr>arg2 := d\<rparr>" lib ui] by (cases s) simp
next
  case (scanner_exit s)
  then show ?case
    using step.scanner_exit [of "s\<lparr>arg2 := d\<rparr>" lib ui] by (cases s) simp
next
  case (channels s p b)
  then show ?case
    using step.channels [of lib ui "s\<lparr>arg2 := d\<rparr>" p b] by (cases s) simp
qed


lemma run_arg2: "run lib ui s t \<Longrightarrow> run lib ui (s\<lparr>arg2 := d\<rparr>) (t\<lparr>arg2 := d\<rparr>)"
  by (induction rule: run.induct) (auto intro: run.intros step_arg2)

lemma call_arg2: "(AnalyzePath_call p d1)\<lparr>arg2 := d2\<rparr> = AnalyzePath_call p d2"
  by (simp add: AnalyzePath_call_def)

lemma AnalyzePath_arg2:
  assumes "AnalyzePath lib ui p d1 res"
  shows "AnalyzePath lib ui p d2 res"
proof -
  from assms obtain s where r: "run lib ui (AnalyzePath_call p d1) s"
    and m: "main s = M_Returned (fst res)" and w: "written s = snd res"
    unfolding AnalyzePath_def by blast
  from run_arg2 [OF r, of d2] have "run lib ui (AnalyzePath_call p d2) (s\<lparr>arg2 := d2\<rparr>)"
    by (simp add: call_arg2)
  with m w show ?thesis
    unfolding AnalyzePath_def by force
qed

text \<open>
  C10: the second parameter of \<open>AnalyzePath\<close> has no effect: two calls that differ
  in it only can return the same results with the same output written, and the states
  that one reaches are those that the other reaches, but for the value of the parameter.
\<close>

theorem AnalyzePath_second_argument:
  "AnalyzePath lib ui p d1 res = AnalyzePath lib ui p d2 res
   \<and> (run lib ui (AnalyzePath_call p d1) s
        \<longrightarrow> run lib ui (AnalyzePath_call p d2) (s\<lparr>arg2 := d2\<rparr>))"
proof -
  have "run lib ui (AnalyzePath_call p d2) (s\<lparr>arg2 := d2\<rparr>)"
    if "run lib ui (AnalyzePath_call p d1) s"
    using run_arg2 [OF that, of d2] by (simp add: call_arg2)
  then show ?thesis
    using AnalyzePath_arg2 by blast
qed

lemma sort_Sort_single: "sort_Sort lt [x] [x]"
  by (simp add: sort_Sort_def)

lemma example_line:
  "entry_line example_lib (example_ui pr ap es) (example_entry ''a'' 100 4096)
     = (if ap then ''      100 B a'' else ''    4.0 KiB a'') @ [CHR 0x0A]"
  by (cases ap)
     (simp_all add: entry_line_def example_lib_def example_ui_def example_entry_def
        entry_size_def formatSize_def string_of_rune_def byte_char_def f64_eval fmt_eval)

theorem AnalyzePath_second_argument_witness:
  "AnalyzePath example_lib (example_ui False False [example_entry ''a'' 100 4096]) ''/data''
     (Some \<lparr>Files = []\<rparr>) (None, [''    4.0 KiB a'' @ [CHR 0x0A]])
   \<and> AnalyzePath example_lib (example_ui False False [example_entry ''a'' 100 4096]) ''/data''
     None (None, [''    4.0 KiB a'' @ [CHR 0x0A]])"
proof -
  let ?ui = "example_ui False False [example_entry ''a'' 100 4096]"
  have ok: "pathChecker ?ui (filepath_Abs example_lib ''/data'') = Inr FileInfo"
    by (simp add: example_ui_def example_lib_def)
  have quiet: "\<not> showProgress ?ui"
    by (simp add: example_ui_def)
  have files: "Files (scanned example_lib ?ui ''/data'') = [example_entry ''a'' 100 4096]"
    by (simp add: scanned_def example_ui_def)
  have "AnalyzePath example_lib ?ui ''/data'' (Some \<lparr>Files = []\<rparr>)
          (None, listing example_lib ?ui [example_entry ''a'' 100 4096])"
    by (rule AnalyzePath_quiet [OF ok quiet]) (simp add: files sort_Sort_single)
  then have a: "AnalyzePath example_lib ?ui ''/data'' (Some \<lparr>Files = []\<rparr>)
          (None, [''    4.0 KiB a'' @ [CHR 0x0A]])"
    by (simp add: listing_def example_line)
  with AnalyzePath_second_argument
         [of example_lib ?ui "''/data''" "Some \<lparr>Files = []\<rparr>" _ None]
  show ?thesis
    by blast
qed

subsection \<open>The order of the listing\<close>

lemma strict_weak_order_usage: "strict_weak_order usage_Less"
  by (auto simp: strict_weak_order_def usage_Less_def)

lemma AnalyzePath_listed:
  assumes "AnalyzePath lib ui p d (None, out)"
  shows "\<exists>before ys. out = before @ listing lib ui ys \<and> progress_only ui before
           \<and> sort_Sort (Files_Less (analyzer ui)) (Files (scanned lib ui p)) ys"
proof -
  from assms obtain s where r: "run lib ui (AnalyzePath_call p d) s"
    and m: "main s = M_Returned None" and w: "written s = out"
    unfolding AnalyzePath_def by auto
  from output_inv_run [OF r barrier_inv_call locals_inv_call output_inv_call] m
  have "listed lib ui s"
    by (simp add: output_inv_def)
  moreover from run_path [OF r] have "path s = p"
    by (simp add: AnalyzePath_call_def)
  ultimately show ?thesis
    using w by (auto simp: listed_def)
qed

lemma mset_pair:
  assumes "mset ys = mset [a, b]"
  shows "ys = [a, b] \<or> ys = [b, a]"
proof -
  from assms have "length ys = 2"
    using mset_eq_length by fastforce
  then obtain x y where ys: "ys = [x, y]"
    by (metis (no_types, opaque_lifting) One_nat_def Suc_1 length_0_conv length_Suc_conv)
  with assms show ?thesis
    by (auto simp: add_eq_conv_ex)
qed

lemma example_ok:
  "pathChecker (example_ui pr ap es) (filepath_Abs example_lib ''/data'') = Inr FileInfo"
  "showProgress (example_ui pr ap es) = pr"
  "showApparentSize (example_ui pr ap es) = ap"
  "Files_Less (analyzer (example_ui pr ap es)) = usage_Less"
  "Files (scanned example_lib (example_ui pr ap es) p) = es"
  by (simp_all add: example_ui_def example_lib_def scanned_def)

lemma example_lines:
  "entry_line example_lib (example_ui pr False es) (example_entry ''a'' 100 100)
     = ''      100 B a'' @ [CHR 0x0A]"
  "entry_line example_lib (example_ui pr False es) (example_entry ''b'' 300 300)
     = ''      300 B b'' @ [CHR 0x0A]"
  "entry_line example_lib (example_ui pr True es) (example_entry ''a'' 100 300)
     = ''      100 B a'' @ [CHR 0x0A]"
  "entry_line example_lib (example_ui pr True es) (example_entry ''b'' 200 200)
     = ''      200 B b'' @ [CHR 0x0A]"
  by (simp_all add: entry_line_def example_lib_def example_ui_def example_entry_def
        entry_size_def formatSize_def string_of_rune_def byte_char_def f64_eval fmt_eval)

text \<open>
  C3, amended: when \<open>AnalyzePath\<close> returns nil, it has written the writes of
  \<open>updateProgress\<close> (none without progress display) and then one line for each of the
  analyzer's entries, each entry once. When \<open>showApparentSize\<close> is false and
  \<open>analyze.Files\<close> orders by on-disk usage, descending, the sizes displayed are
  non-increasing down the listing. Nothing is promised about the order of the lines when
  \<open>showApparentSize\<close> is true, nor about the order among entries of equal size.
\<close>

theorem AnalyzePath_listing_order:
  assumes "AnalyzePath lib ui p d (None, out)"
  shows "\<exists>before ys. out = before @ listing lib ui ys
           \<and> progress_only ui before
           \<and> mset ys = mset (Files (scanned lib ui p))
           \<and> (\<not> showApparentSize ui \<and> Files_Less (analyzer ui) = usage_Less \<longrightarrow>
                sorted_wrt (\<lambda>a b. sint (entry_size ui b) \<le> sint (entry_size ui a)) ys)"
proof -
  from AnalyzePath_listed [OF assms] obtain before ys where o: "out = before @ listing lib ui ys"
    and b: "progress_only ui before"
    and s: "sort_Sort (Files_Less (analyzer ui)) (Files (scanned lib ui p)) ys"
    by blast
  have "sorted_wrt (\<lambda>a b. sint (entry_size ui b) \<le> sint (entry_size ui a)) ys"
    if q: "\<not> showApparentSize ui" and u: "Files_Less (analyzer ui) = usage_Less"
  proof -
    from s u strict_weak_order_usage have "sorted_wrt (\<lambda>a b. \<not> usage_Less b a) ys"
      by (simp add: sort_Sort_def)
    moreover have "(\<lambda>a b. \<not> usage_Less b a)
                     = (\<lambda>a b. sint (entry_size ui b) \<le> sint (entry_size ui a))"
      using q by (auto simp: usage_Less_def entry_size_def fun_eq_iff)
    ultimately show ?thesis
      by simp
  qed
  with o b s show ?thesis
    unfolding sort_Sort_def by blast
qed

theorem AnalyzePath_listing_order_witness:
  "AnalyzePath example_lib
     (example_ui False False [example_entry ''a'' 100 100, example_entry ''b'' 300 300])
     ''/data'' None (None, [''      300 B b'' @ [CHR 0x0A], ''      100 B a'' @ [CHR 0x0A]])
   \<and> (\<exists>ys.
         [''      300 B b'' @ [CHR 0x0A], ''      100 B a'' @ [CHR 0x0A]]
           = listing example_lib
               (example_ui False False [example_entry ''a'' 100 100, example_entry ''b'' 300 300])
               ys
         \<and> mset ys = mset [example_entry ''a'' 100 100, example_entry ''b'' 300 300]
         \<and> sorted_wrt (\<lambda>a b. sint (GetUsage b) \<le> sint (GetUsage a)) ys)"
proof -
  let ?a = "example_entry ''a'' 100 100" and ?b = "example_entry ''b'' 300 300"
  let ?ui = "example_ui False False [?a, ?b]"
  let ?out = "[''      300 B b'' @ [CHR 0x0A], ''      100 B a'' @ [CHR 0x0A]]"
  have "sort_Sort (Files_Less (analyzer ?ui)) (Files (scanned example_lib ?ui ''/data'')) [?b, ?a]"
    by (simp add: example_ok sort_Sort_def usage_Less_def example_entry_def)
  from AnalyzePath_quiet [OF example_ok(1) _ this, of None]
  have r: "AnalyzePath example_lib ?ui ''/data'' None (None, ?out)"
    by (simp add: example_ok listing_def example_lines)
  from AnalyzePath_listing_order [OF r] obtain before ys
    where "?out = before @ listing example_lib ?ui ys"
      and "progress_only ?ui before"
      and "mset ys = mset (Files (scanned example_lib ?ui ''/data''))"
      and "\<not> showApparentSize ?ui \<and> Files_Less (analyzer ?ui) = usage_Less \<longrightarrow>
             sorted_wrt (\<lambda>a b. sint (entry_size ?ui b) \<le> sint (entry_size ?ui a)) ys"
    by blast
  then have "?out = listing example_lib ?ui ys
      \<and> mset ys = mset [?a, ?b]
      \<and> sorted_wrt (\<lambda>a b. sint (GetUsage b) \<le> sint (GetUsage a)) ys"
    by (simp add: example_ok progress_only_def entry_size_def)
  with r show ?thesis
    by blast
qed

text \<open>
  C3 as stated fails. With \<open>showApparentSize\<close> set, two entries of apparent sizes 100
  and 200 and of usages 300 and 200 are displayed with the size 100 first, and are not
  displayed in the other order: the listing is in the order of the usage.
\<close>

theorem AnalyzePath_listing_order_counterexample:
  "showApparentSize
     (example_ui False True [example_entry ''a'' 100 300, example_entry ''b'' 200 200])
   \<and> sint (entry_size
        (example_ui False True [example_entry ''a'' 100 300, example_entry ''b'' 200 200])
        (example_entry ''a'' 100 300)) = 100
   \<and> sint (entry_size
        (example_ui False True [example_entry ''a'' 100 300, example_entry ''b'' 200 200])
        (example_entry ''b'' 200 200)) = 200
   \<and> AnalyzePath example_lib
     (example_ui False True [example_entry ''a'' 100 300, example_entry ''b'' 200 200])
     ''/data'' None (None, [''      100 B a'' @ [CHR 0x0A], ''      200 B b'' @ [CHR 0x0A]])
   \<and> \<not> AnalyzePath example_lib
     (example_ui False True [example_entry ''a'' 100 300, example_entry ''b'' 200 200])
     ''/data'' None (None, [''      200 B b'' @ [CHR 0x0A], ''      100 B a'' @ [CHR 0x0A]])"
proof -
  let ?a = "example_entry ''a'' 100 300" and ?b = "example_entry ''b'' 200 200"
  let ?ui = "example_ui False True [?a, ?b]"
  have 0: "showApparentSize ?ui" "sint (entry_size ?ui ?a) = 100" "sint (entry_size ?ui ?b) = 200"
    by (simp_all add: example_ok entry_size_def example_entry_def)
  have "sort_Sort (Files_Less (analyzer ?ui)) (Files (scanned example_lib ?ui ''/data'')) [?a, ?b]"
    by (simp add: example_ok sort_Sort_def usage_Less_def example_entry_def)
  from AnalyzePath_quiet [OF example_ok(1) _ this, of None]
  have 1: "AnalyzePath example_lib ?ui ''/data'' None
             (None, [''      100 B a'' @ [CHR 0x0A], ''      200 B b'' @ [CHR 0x0A]])"
    by (simp add: example_ok listing_def example_lines)
  have 2: "\<not> AnalyzePath example_lib ?ui ''/data'' None
             (None, [''      200 B b'' @ [CHR 0x0A], ''      100 B a'' @ [CHR 0x0A]])"
  proof
    assume "AnalyzePath example_lib ?ui ''/data'' None
             (None, [''      200 B b'' @ [CHR 0x0A], ''      100 B a'' @ [CHR 0x0A]])"
    from AnalyzePath_listed [OF this] obtain before ys
      where o: "[''      200 B b'' @ [CHR 0x0A], ''      100 B a'' @ [CHR 0x0A]]
                  = before @ listing example_lib ?ui ys"
        and b: "progress_only ?ui before"
        and s: "sort_Sort usage_Less [?a, ?b] ys"
      by (auto simp: example_ok)
    from b have e: "before = []"
      by (simp add: progress_only_def example_ok)
    from s have "mset ys = mset [?a, ?b]"
      by (simp add: sort_Sort_def)
    then have "ys = [?a, ?b] \<or> ys = [?b, ?a]"
      by (rule mset_pair)
    moreover from s have "ys \<noteq> [?b, ?a]"
      by (auto simp: sort_Sort_def strict_weak_order_usage usage_Less_def example_entry_def)
    ultimately have "ys = [?a, ?b]"
      by blast
    with o e show False
      by (simp add: listing_def example_lines)
  qed
  from 0 1 2 show ?thesis
    by blast
qed

lemma example_line_named:
  "entry_line example_lib (example_ui pr False es) (example_entry n 100 100)
     = ''      100 B '' @ n @ [CHR 0x0A]"
  "entry_line example_lib (example_ui pr False es) (example_entry n 200 200)
     = ''      200 B '' @ n @ [CHR 0x0A]"
  by (simp_all add: entry_line_def example_lib_def example_ui_def example_entry_def
        entry_size_def formatSize_def string_of_rune_def byte_char_def f64_eval fmt_eval)

text \<open>
  Thirteen entries, twelve of them of equal usage: the contract of \<open>sort.Sort\<close> admits a
  listing in which entries of equal size are out of the order in which the analyzer
  found them. (It is the order that a trace by hand of the library's pattern-defeating
  quicksort gives on this input: the pivot \<open>f06\<close> goes to the front of the equal entries
  and the first partition exchanges \<open>f01\<close> and \<open>f12\<close>. The library's algorithm is not part
  of this model.)
\<close>

lemma AnalyzePath_equal_sizes:
  "AnalyzePath example_lib
     (example_ui False False
        [example_entry ''f00'' 100 100, example_entry ''f01'' 100 100,
         example_entry ''f02'' 100 100, example_entry ''f03'' 100 100,
         example_entry ''f04'' 100 100, example_entry ''f05'' 100 100,
         example_entry ''f06'' 100 100, example_entry ''f07'' 100 100,
         example_entry ''f08'' 100 100, example_entry ''f09'' 100 100,
         example_entry ''f10'' 100 100, example_entry ''f11'' 100 100,
         example_entry ''f12'' 200 200])
     ''/data'' None
     (None,
      [''      200 B f12'' @ [CHR 0x0A], ''      100 B f06'' @ [CHR 0x0A],
       ''      100 B f02'' @ [CHR 0x0A], ''      100 B f03'' @ [CHR 0x0A],
       ''      100 B f04'' @ [CHR 0x0A], ''      100 B f05'' @ [CHR 0x0A],
       ''      100 B f00'' @ [CHR 0x0A], ''      100 B f07'' @ [CHR 0x0A],
       ''      100 B f08'' @ [CHR 0x0A], ''      100 B f09'' @ [CHR 0x0A],
       ''      100 B f10'' @ [CHR 0x0A], ''      100 B f11'' @ [CHR 0x0A],
       ''      100 B f01'' @ [CHR 0x0A]])"
proof -
  let ?es = "[example_entry ''f00'' 100 100, example_entry ''f01'' 100 100,
         example_entry ''f02'' 100 100, example_entry ''f03'' 100 100,
         example_entry ''f04'' 100 100, example_entry ''f05'' 100 100,
         example_entry ''f06'' 100 100, example_entry ''f07'' 100 100,
         example_entry ''f08'' 100 100, example_entry ''f09'' 100 100,
         example_entry ''f10'' 100 100, example_entry ''f11'' 100 100,
         example_entry ''f12'' 200 200]"
  let ?ys = "[example_entry ''f12'' 200 200, example_entry ''f06'' 100 100,
         example_entry ''f02'' 100 100, example_entry ''f03'' 100 100,
         example_entry ''f04'' 100 100, example_entry ''f05'' 100 100,
         example_entry ''f00'' 100 100, example_entry ''f07'' 100 100,
         example_entry ''f08'' 100 100, example_entry ''f09'' 100 100,
         example_entry ''f10'' 100 100, example_entry ''f11'' 100 100,
         example_entry ''f01'' 100 100]"
  let ?ui = "example_ui False False ?es"
  have m: "mset ?ys = mset ?es"
    by (simp add: add_mset_commute)
  have u: "GetUsage (example_entry n 100 100) = 100" "GetUsage (example_entry n 200 200) = 200"
    for n
    by (simp_all add: example_entry_def)
  have s: "sorted_wrt (\<lambda>a b. \<not> usage_Less b a) ?ys"
    by (simp add: usage_Less_def u)
  from m s
  have "sort_Sort (Files_Less (analyzer ?ui)) (Files (scanned example_lib ?ui ''/data'')) ?ys"
    by (simp only: example_ok sort_Sort_def simp_thms)
  from AnalyzePath_quiet [OF example_ok(1) _ this, of None]
  show ?thesis
    by (simp add: example_ok listing_def example_line_named)
qed

subsection \<open>The poller and the completion signal\<close>

lemma done_stays:
  assumes "step lib ui s a t" and "barrier_inv ui s"
    and "poller s = P_Done \<or> poller s = P_Exit \<or> poller s = P_Finished"
  shows "poller t = P_Done \<or> poller t = P_Exit \<or> poller t = P_Finished"
  using assms by (induction rule: step.induct) (auto simp: barrier_inv_def)

lemma done_stays_run:
  assumes "run lib ui s t" and "barrier_inv ui s"
    and "poller s = P_Done \<or> poller s = P_Exit \<or> poller s = P_Finished"
  shows "barrier_inv ui t
         \<and> (poller t = P_Done \<or> poller t = P_Exit \<or> poller t = P_Finished)"
  using assms
proof (induction rule: run.induct)
  case run_start
  then show ?case by simp
next
  case (run_step t a u)
  then show ?case
    using done_stays barrier_inv_step by blast
qed

text \<open>
  C2, amended: in an iteration in which only the completion signal is ready, the
  poller takes it and renders nothing; when a snapshot is ready as well, the \<open>select\<close>
  may take either, and the poller renders nothing in that step. Once the poller has
  taken the completion signal in a call, in every later state its only steps are the write of
  the carriage return that erases the line, once, and its termination: it never
  renders progress output after completion has been observed.
\<close>

theorem updateProgress_completion:
  assumes "run lib ui (AnalyzePath_call p d) s" and "run lib ui s t"
    and "step lib ui t Poller u"
  shows "(poller t = P_Select i \<and> progressChan t = None \<longrightarrow>
            poller u = P_Done \<and> written u = written t)
         \<and> (poller t = P_Select i \<and> progressChan t = Some progress \<and> doneChan t \<longrightarrow>
            (poller u = P_Done \<or> poller u = P_Render i progress) \<and> written u = written t)
         \<and> (poller s = P_Done \<or> poller s = P_Exit \<or> poller s = P_Finished \<longrightarrow>
            (poller t = P_Done \<and> poller u = P_Exit \<and> written u = written t @ [[CHR 0x0D]])
            \<or> (poller t = P_Exit \<and> poller u = P_Finished \<and> written u = written t))"
proof -
  have a: "poller t = P_Select i \<and> progressChan t = None \<longrightarrow>
            poller u = P_Done \<and> written u = written t"
    using assms(3) by (auto elim: step.cases)
  have b: "poller t = P_Select i \<and> progressChan t = Some progress \<and> doneChan t \<longrightarrow>
            (poller u = P_Done \<or> poller u = P_Render i progress) \<and> written u = written t"
    using assms(3) by (auto elim: step.cases)
  have c: "(poller t = P_Done \<and> poller u = P_Exit \<and> written u = written t @ [[CHR 0x0D]])
            \<or> (poller t = P_Exit \<and> poller u = P_Finished \<and> written u = written t)"
    if "poller s = P_Done \<or> poller s = P_Exit \<or> poller s = P_Finished"
  proof -
    from assms(1) have "barrier_inv ui s"
      using invs_call by blast
    from done_stays_run [OF assms(2) this that]
    have "poller t = P_Done \<or> poller t = P_Exit \<or> poller t = P_Finished"
      by blast
    with assms(3) show ?thesis
      by (auto elim: step.cases)
  qed
  from a b c show ?thesis
    by blast
qed


lemma example_texts:
  "spinner_text 0 = [CHR 0x0D, CHR '' '', CHR 0xE2, CHR 0xA0, CHR 0x87, CHR '' '']"
  "scanning_text (example_ui pr ap es) example_progress
     = ''Scanning... Total items: 3 size: 2.0 KiB''"
  by (simp_all add: spinner_text_def progressRunes_def string_of_rune_def byte_char_def
        scanning_text_def example_progress_def example_ui_def formatSize_def f64_eval)

lemma example_both_ready:
  "run example_lib (example_ui True False []) (AnalyzePath_call ''/data'' None)
     (example_state M_Wait (P_Select 0) 1 [emptyRow] (Some example_progress) True)"
  using run_both_ready [of "example_ui True False []" example_lib "''/data''" FileInfo None
          example_progress]
  by (simp add: example_ok example_state_def scanned_def example_lib_def)
     (simp add: example_ui_def)

lemma example_snapshot_taken:
  "step example_lib (example_ui True False [])
     (example_state M_Wait (P_Select 0) 1 [emptyRow] (Some example_progress) True) Poller
     (example_state M_Wait (P_Render 0 example_progress) 1 [emptyRow] None True)"
  using select_progress [of "example_state M_Wait (P_Select 0) 1 [emptyRow]
          (Some example_progress) True" 0 example_progress example_lib "example_ui True False []"]
  by (simp add: example_state_def)

lemma example_snapshot_drawn:
  "step example_lib (example_ui True False [])
     (example_state M_Wait (P_Render 0 example_progress) 1 [emptyRow] None True) Poller
     (example_state M_Wait (P_Loop 1) 1
        [emptyRow, [CHR 0x0D, CHR '' '', CHR 0xE2, CHR 0xA0, CHR 0x87, CHR '' ''],
         ''Scanning... Total items: 3 size: 2.0 KiB''] None True)"
  using render_progress [of "example_state M_Wait (P_Render 0 example_progress) 1 [emptyRow]
          None True" 0 example_progress example_lib "example_ui True False []"]
  by (simp add: example_state_def example_texts)

text \<open>
  C2 as stated fails: the call reaches a state in which the poller is at its \<open>select\<close>
  with a snapshot and the completion signal both ready; the poller may take the
  snapshot, and it then renders it.
\<close>

theorem updateProgress_completion_counterexample:
  "run example_lib (example_ui True False []) (AnalyzePath_call ''/data'' None)
     (example_state M_Wait (P_Select 0) 1 [emptyRow] (Some example_progress) True)
   \<and> step example_lib (example_ui True False [])
     (example_state M_Wait (P_Select 0) 1 [emptyRow] (Some example_progress) True) Poller
     (example_state M_Wait (P_Render 0 example_progress) 1 [emptyRow] None True)
   \<and> step example_lib (example_ui True False [])
     (example_state M_Wait (P_Render 0 example_progress) 1 [emptyRow] None True) Poller
     (example_state M_Wait (P_Loop 1) 1
        [emptyRow, [CHR 0x0D, CHR '' '', CHR 0xE2, CHR 0xA0, CHR 0x87, CHR '' ''],
         ''Scanning... Total items: 3 size: 2.0 KiB''] None True)"
  using example_both_ready example_snapshot_taken example_snapshot_drawn
  by (intro conjI)

lemma example_done_taken:
  "step example_lib (example_ui True False [])
     (example_state M_Wait (P_Select 0) 1 [emptyRow] (Some example_progress) True) Poller
     (example_state M_Wait P_Done 1 [emptyRow] (Some example_progress) False)"
  using select_done [of "example_state M_Wait (P_Select 0) 1 [emptyRow]
          (Some example_progress) True" 0 example_lib "example_ui True False []"]
  by (simp add: example_state_def)

lemma example_line_erased:
  "step example_lib (example_ui True False [])
     (example_state M_Wait P_Done 1 [emptyRow] (Some example_progress) False) Poller
     (example_state M_Wait P_Exit 1 [emptyRow, [CHR 0x0D]] (Some example_progress) False)"
  using erase_line [of "example_state M_Wait P_Done 1 [emptyRow]
          (Some example_progress) False" example_lib "example_ui True False []"]
  by (simp add: example_state_def)

theorem updateProgress_completion_witness:
  "run example_lib (example_ui True False []) (AnalyzePath_call ''/data'' None)
     (example_state M_Wait P_Done 1 [emptyRow] (Some example_progress) False)
   \<and> step example_lib (example_ui True False [])
     (example_state M_Wait P_Done 1 [emptyRow] (Some example_progress) False) Poller
     (example_state M_Wait P_Exit 1 [emptyRow, [CHR 0x0D]] (Some example_progress) False)
   \<and> poller (example_state M_Wait P_Exit 1 [emptyRow, [CHR 0x0D]] (Some example_progress) False)
       = P_Exit
   \<and> written (example_state M_Wait P_Exit 1 [emptyRow, [CHR 0x0D]] (Some example_progress) False)
       = written (example_state M_Wait P_Done 1 [emptyRow] (Some example_progress) False)
         @ [[CHR 0x0D]]"
proof -
  let ?s = "example_state M_Wait P_Done 1 [emptyRow] (Some example_progress) False"
  let ?u = "example_state M_Wait P_Exit 1 [emptyRow, [CHR 0x0D]] (Some example_progress) False"
  have r: "run example_lib (example_ui True False []) (AnalyzePath_call ''/data'' None) ?s"
    using run_step [OF example_both_ready example_done_taken] .
  have "poller ?s = P_Done"
    by (simp add: example_state_def)
  with updateProgress_completion [OF r run_start example_line_erased]
  have "poller ?u = P_Exit \<and> written ?u = written ?s @ [[CHR 0x0D]]"
    by (simp add: example_state_def)
  with r example_line_erased show ?thesis
    by (intro conjI) simp_all
qed

subsection \<open>float64 rounding\<close>

lemma bitlen_0: "bitlen 0 = 0"
  by (subst bitlen.simps) simp

lemma bitlen_step: "0 < n \<Longrightarrow> bitlen n = Suc (bitlen (n div 2))"
  by (subst bitlen.simps) simp

lemma bitlen_upper: "n < 2 ^ bitlen n"
proof (induction n rule: bitlen.induct)
  case (1 n)
  show ?case
  proof (cases "n = 0")
    case True
    then show ?thesis by simp
  next
    case False
    with 1 have "n div 2 < 2 ^ bitlen (n div 2)" by simp
    then have "n < 2 * 2 ^ bitlen (n div 2)" by linarith
    with False show ?thesis by (simp add: bitlen_step)
  qed
qed

lemma bitlen_pos: "0 < n \<Longrightarrow> 0 < bitlen n"
  by (simp add: bitlen_step)

lemma bitlen_lower: "0 < n \<Longrightarrow> 2 ^ (bitlen n - 1) \<le> n"
proof (induction n rule: bitlen.induct)
  case (1 n)
  show ?case
  proof (cases "n div 2 = 0")
    case True
    with 1(2) have "bitlen n = 1"
      by (simp add: bitlen_step bitlen_0)
    with 1(2) show ?thesis by simp
  next
    case False
    with 1 have ih: "2 ^ (bitlen (n div 2) - 1) \<le> n div 2" by simp
    from False have "0 < bitlen (n div 2)" by (simp add: bitlen_pos)
    then have "(2::nat) ^ bitlen (n div 2) = 2 * 2 ^ (bitlen (n div 2) - 1)"
      by (cases "bitlen (n div 2)") simp_all
    with ih have "(2::nat) ^ bitlen (n div 2) \<le> n" by linarith
    with 1(2) show ?thesis by (simp add: bitlen_step)
  qed
qed


lemma scaled_le:
  "(b * 2 ^ nat d \<le> a * 2 ^ nat (- d)) = (real b * 2 powi d \<le> real a)"
proof (cases "0 \<le> d")
  case True
  then have "real b * 2 powi d = real (b * 2 ^ nat d)"
    by (simp add: power_int_def)
  with True show ?thesis
    by (simp only: of_nat_le_iff) simp
next
  case False
  then have "real b * 2 powi d = real b / 2 ^ nat (- d)"
    by (simp add: power_int_def field_simps)
  moreover have "(real b / 2 ^ nat (- d) \<le> real a) = (real b \<le> real a * 2 ^ nat (- d))"
    by (simp add: field_simps)
  moreover have "real a * 2 ^ nat (- d) = real (a * 2 ^ nat (- d))"
    by simp
  ultimately show ?thesis
    using False by (simp only: of_nat_le_iff) simp
qed



lemma pow_lower_real: "0 < n \<Longrightarrow> 2 powi (int (bitlen n) - 1) \<le> real n"
proof -
  assume n: "0 < n"
  then have "0 < bitlen n" by (rule bitlen_pos)
  then have "(2::real) powi (int (bitlen n) - 1) = 2 ^ (bitlen n - 1)"
    by (simp add: power_int_def nat_diff_distrib')
  also have "\<dots> = real (2 ^ (bitlen n - 1))" by simp
  also have "\<dots> \<le> real n"
    using bitlen_lower [OF n] by (simp only: of_nat_le_iff)
  finally show ?thesis .
qed

lemma pow_upper_real: "real n < 2 powi (int (bitlen n))"
proof -
  have "real n < real (2 ^ bitlen n)"
    using bitlen_upper [of n] by (simp only: of_nat_less_iff)
  then show ?thesis
    by (simp add: power_int_def)
qed


lemma ratio_lower:
  assumes "0 < a" and "0 < b"
  shows "2 powi (int (bitlen a) - int (bitlen b) - 1) \<le> real a / real b"
proof -
  let ?A = "int (bitlen a)" and ?B = "int (bitlen b)"
  have rb: "0 < real b" using assms by simp
  have "2 powi (?A - ?B - 1) * real b \<le> 2 powi (?A - ?B - 1) * 2 powi ?B"
    using pow_upper_real [of b] by (intro mult_left_mono) simp_all
  also have "\<dots> = 2 powi (?A - 1)"
    by (subst power_int_add [symmetric]) simp_all
  also have "\<dots> \<le> real a"
    by (rule pow_lower_real [OF assms(1)])
  finally have "2 powi (?A - ?B - 1) * real b \<le> real a" .
  with rb show ?thesis
    by (simp add: pos_le_divide_eq)
qed

lemma ratio_upper:
  assumes "0 < a" and "0 < b"
  shows "real a / real b < 2 powi (int (bitlen a) - int (bitlen b) + 1)"
proof -
  let ?A = "int (bitlen a)" and ?B = "int (bitlen b)"
  have rb: "0 < real b" using assms by simp
  have "real a < 2 powi ?A"
    by (rule pow_upper_real)
  also have "\<dots> = 2 powi (?A - ?B + 1) * 2 powi (?B - 1)"
    by (subst power_int_add [symmetric]) simp_all
  also have "\<dots> \<le> 2 powi (?A - ?B + 1) * real b"
    using pow_lower_real [OF assms(2)] by (intro mult_left_mono) simp_all
  finally have "real a < 2 powi (?A - ?B + 1) * real b" .
  with rb show ?thesis
    by (simp add: pos_divide_less_eq)
qed


lemma ilog2_ratio_cond:
  assumes "0 < b"
  shows "(b * 2 ^ nat d \<le> a * 2 ^ nat (- d)) = (2 powi d \<le> real a / real b)"
proof -
  have rb: "0 < real b" using assms by simp
  have "(2 powi d \<le> real a / real b) = (2 powi d * real b \<le> real a)"
    using rb by (simp add: pos_le_divide_eq)
  also have "\<dots> = (real b * 2 powi d \<le> real a)"
    by (simp only: mult.commute)
  finally show ?thesis
    by (simp only: scaled_le)
qed

lemma ilog2_ratio_bounds:
  assumes "0 < a" and "0 < b"
  shows "2 powi ilog2_ratio a b \<le> real a / real b"
    and "real a / real b < 2 powi (ilog2_ratio a b + 1)"
proof -
  let ?d = "int (bitlen a) - int (bitlen b)"
  show "2 powi ilog2_ratio a b \<le> real a / real b"
  proof (cases "b * 2 ^ nat ?d \<le> a * 2 ^ nat (- ?d)")
    case True
    then have "ilog2_ratio a b = ?d"
      by (simp add: ilog2_ratio_def Let_def)
    with True show ?thesis
      by (simp only: ilog2_ratio_cond [OF assms(2)])
  next
    case False
    then have "ilog2_ratio a b = ?d - 1"
      by (simp add: ilog2_ratio_def Let_def)
    with ratio_lower [OF assms] show ?thesis
      by simp
  qed
  show "real a / real b < 2 powi (ilog2_ratio a b + 1)"
  proof (cases "b * 2 ^ nat ?d \<le> a * 2 ^ nat (- ?d)")
    case True
    then have "ilog2_ratio a b = ?d"
      by (simp add: ilog2_ratio_def Let_def)
    with ratio_upper [OF assms] show ?thesis
      by simp
  next
    case False
    then have "ilog2_ratio a b = ?d - 1"
      by (simp add: ilog2_ratio_def Let_def)
    moreover from False have "real a / real b < 2 powi ?d"
      by (simp only: ilog2_ratio_cond [OF assms(2)] not_le)
    ultimately show ?thesis
      by simp
  qed
qed


lemma round_half_even_bounds:
  "n div d \<le> round_half_even n d" "round_half_even n d \<le> n div d + 1"
  by (simp_all add: round_half_even_def Let_def)

lemma round_half_even_error:
  assumes "0 < d"
  shows "\<bar>real (round_half_even n d) - real n / real d\<bar> \<le> 1 / 2"
proof -
  let ?q = "n div d" and ?r = "n mod d"
  have rd: "0 < real d" using assms by simp
  have "real n = real ?q * real d + real ?r"
    by (metis div_mult_mod_eq of_nat_add of_nat_mult)
  then have x: "real n / real d = real ?q + real ?r / real d"
    using rd by (simp add: field_simps)
  have r: "real ?r < real d"
    using assms by simp
  consider "2 * ?r < d" | "d < 2 * ?r" | "2 * ?r = d"
    by linarith
  then show ?thesis
  proof cases
    case 1
    then have "round_half_even n d = ?q"
      by (simp add: round_half_even_def Let_def)
    moreover from 1 have "2 * real ?r < real d"
      by (metis of_nat_less_iff of_nat_mult of_nat_numeral)
    then have "real ?r / real d \<le> 1 / 2"
      using rd by (simp add: field_simps)
    ultimately show ?thesis
      using x by simp
  next
    case 2
    then have "round_half_even n d = ?q + 1"
      by (simp add: round_half_even_def Let_def)
    moreover from 2 have "real d < 2 * real ?r"
      by (metis of_nat_less_iff of_nat_mult of_nat_numeral)
    then have "1 / 2 \<le> real ?r / real d"
      using rd by (simp add: field_simps)
    moreover have "real ?r / real d \<le> 1"
      using r rd by (simp add: field_simps)
    ultimately show ?thesis
      using x by simp
  next
    case 3
    then have "2 * real ?r = real d"
      by (metis of_nat_mult of_nat_numeral)
    then have "real ?r / real d = 1 / 2"
      using rd by (simp add: field_simps)
    moreover have "round_half_even n d = ?q \<or> round_half_even n d = ?q + 1"
      by (simp add: round_half_even_def Let_def)
    ultimately show ?thesis
      using x by auto
  qed
qed

lemma scaled_ratio:
  assumes "0 < b"
  shows "real (a * 2 ^ nat (- e)) / real (b * 2 ^ nat e) = real a / real b * 2 powi (- e)"
proof (cases "0 \<le> e")
  case True
  then have "(2::real) powi (- e) = 1 / 2 ^ nat e"
    by (simp add: power_int_def field_simps)
  with True show ?thesis
    by simp
next
  case False
  then have "(2::real) powi (- e) = 2 ^ nat (- e)"
    by (simp add: power_int_def)
  with False show ?thesis
    by simp
qed

lemma powi_mantissa:
  "(2::real) powi il * 2 powi (- (il - 52)) = 2 ^ 52"
  "(2::real) powi (il + 1) * 2 powi (- (il - 52)) = 2 ^ 53"
  by (subst power_int_add [symmetric], simp_all)+

lemma quotient_lower: "0 < D \<Longrightarrow> 2 ^ 52 \<le> real N / real D \<Longrightarrow> 2 ^ 52 \<le> N div D"
proof -
  assume D: "0 < D" and "2 ^ 52 \<le> real N / real D"
  then have "real (2 ^ 52 * D) \<le> real N"
    by (simp add: pos_le_divide_eq)
  then have "2 ^ 52 * D \<le> N"
    by (simp only: of_nat_le_iff)
  with D show ?thesis
    by (simp add: less_eq_div_iff_mult_less_eq)
qed

lemma quotient_upper: "0 < D \<Longrightarrow> real N / real D < 2 ^ 53 \<Longrightarrow> N div D < 2 ^ 53"
proof -
  assume D: "0 < D" and "real N / real D < 2 ^ 53"
  then have "real N < real (2 ^ 53 * D)"
    by (simp add: pos_divide_less_eq)
  then have "N < 2 ^ 53 * D"
    by (simp only: of_nat_less_iff)
  with D show ?thesis
    by (simp add: div_less_iff_less_mult)
qed

lemma unscale_error: "\<bar>x - y * 2 powi (- e)\<bar> * 2 powi e = \<bar>x * 2 powi e - (y::real)\<bar>"
proof -
  have "(x - y * 2 powi (- e)) * 2 powi e = x * 2 powi e - y * (2 powi (- e) * 2 powi e)"
    by (simp add: algebra_simps)
  also have "(2::real) powi (- e) * 2 powi e = 1"
    by (subst power_int_add [symmetric]) simp_all
  finally have "(x - y * 2 powi (- e)) * 2 powi e = x * 2 powi e - y"
    by simp
  then have "\<bar>x * 2 powi e - y\<bar> = \<bar>x - y * 2 powi (- e)\<bar> * \<bar>(2::real) powi e\<bar>"
    by (simp only: abs_mult [symmetric])
  then show ?thesis
    by simp
qed

lemma mantissa_range:
  assumes a: "0 < a" and b: "0 < b" and e: "e = ilog2_ratio a b - 52"
  shows "2 ^ 52 \<le> round_half_even (a * 2 ^ nat (- e)) (b * 2 ^ nat e)"
    and "round_half_even (a * 2 ^ nat (- e)) (b * 2 ^ nat e) \<le> 2 ^ 53"
    and "\<bar>real (round_half_even (a * 2 ^ nat (- e)) (b * 2 ^ nat e)) * 2 powi e
           - real a / real b\<bar> \<le> 2 powi e / 2"
proof -
  let ?N = "a * 2 ^ nat (- e)" and ?D = "b * 2 ^ nat e"
  let ?m = "round_half_even ?N ?D"
  let ?q = "real a / real b"
  have D: "0 < ?D" using b by simp
  have x: "real ?N / real ?D = ?q * 2 powi (- e)"
    by (rule scaled_ratio [OF b])
  have p: "(0::real) < 2 powi (- e)" by simp
  have pm: "(2::real) powi ilog2_ratio a b * 2 powi (- e) = 2 ^ 52"
    "(2::real) powi (ilog2_ratio a b + 1) * 2 powi (- e) = 2 ^ 53"
    by (simp_all only: e powi_mantissa)
  have "2 powi ilog2_ratio a b * 2 powi (- e) \<le> ?q * 2 powi (- e)"
    using ilog2_ratio_bounds(1) [OF a b] p by (simp only: mult_le_cancel_right_pos)
  then have x_lo: "2 ^ 52 \<le> real ?N / real ?D"
    by (simp only: x pm)
  have "?q * 2 powi (- e) < 2 powi (ilog2_ratio a b + 1) * 2 powi (- e)"
    using ilog2_ratio_bounds(2) [OF a b] p by (simp only: mult_less_cancel_right_pos)
  then have x_hi: "real ?N / real ?D < 2 ^ 53"
    by (simp only: x pm)
  from quotient_lower [OF D x_lo] round_half_even_bounds(1) [of ?N ?D]
  show "2 ^ 52 \<le> ?m"
    by (rule order_trans)
  from quotient_upper [OF D x_hi] round_half_even_bounds(2) [of ?N ?D]
  show "?m \<le> 2 ^ 53"
    by linarith
  have "\<bar>real ?m - real ?N / real ?D\<bar> \<le> 1 / 2"
    by (rule round_half_even_error [OF D])
  then have "\<bar>real ?m - ?q * 2 powi (- e)\<bar> \<le> 1 / 2"
    by (simp only: x)
  then have "\<bar>real ?m - ?q * 2 powi (- e)\<bar> * 2 powi e \<le> 1 / 2 * 2 powi e"
    by (rule mult_right_mono) simp
  then have "\<bar>real ?m * 2 powi e - ?q\<bar> \<le> 1 / 2 * 2 powi e"
    by (simp only: unscale_error)
  then show "\<bar>real ?m * 2 powi e - ?q\<bar> \<le> 2 powi e / 2"
    by simp
qed


lemma round_f64_normal:
  assumes a: "0 < a" and b: "0 < b"
    and lo: "- 1022 \<le> ilog2_ratio a b" and hi: "ilog2_ratio a b \<le> 1022"
  shows "round_f64 s a b
           = Fin s (round_half_even (a * 2 ^ nat (- (ilog2_ratio a b - 52)))
                                    (b * 2 ^ nat (ilog2_ratio a b - 52)))
                   (ilog2_ratio a b - 52)"
proof -
  have "max (ilog2_ratio a b - 52) (- 1074) = ilog2_ratio a b - 52"
    using lo by simp
  moreover have "\<not> 971 < ilog2_ratio a b - 52" "ilog2_ratio a b - 52 \<noteq> 971"
    using hi by simp_all
  ultimately show ?thesis
    using a by (simp only: round_f64_def Let_def) simp
qed

lemma powi_two_less_cancel: "(2::real) powi i < 2 powi j \<Longrightarrow> i < j"
proof (rule ccontr)
  assume "(2::real) powi i < 2 powi j" and "\<not> i < j"
  then have "(2::real) powi j \<le> 2 powi i"
    by (intro power_int_increasing) simp_all
  with \<open>(2::real) powi i < 2 powi j\<close> show False
    by simp
qed

lemma powi_two_mono: "i \<le> j \<Longrightarrow> (2::real) powi i \<le> 2 powi j"
  by (intro power_int_increasing) simp_all

lemma powi_unscale:
  "(2::real) ^ 52 * 2 powi (il - 52) = 2 powi il"
  "(2::real) ^ 53 * 2 powi (il - 52) = 2 powi (il + 1)"
  "(2::real) powi (il - 52) / 2 = 2 powi il / 2 ^ 53"
proof -
  have a: "(2::real) powi 52 = 2 ^ 52" and b: "(2::real) powi 53 = 2 ^ 53"
    by (simp_all add: power_int_def)
  have "(2::real) powi 52 * 2 powi (il - 52) = 2 powi il"
    by (subst power_int_add [symmetric]) simp_all
  then show 1: "(2::real) ^ 52 * 2 powi (il - 52) = 2 powi il"
    by (simp only: a)
  have "(2::real) powi 53 * 2 powi (il - 52) = 2 powi (il + 1)"
    by (subst power_int_add [symmetric]) (simp_all add: add.commute)
  then show "(2::real) ^ 53 * 2 powi (il - 52) = 2 powi (il + 1)"
    by (simp only: b)
  from 1 have "(2::real) powi il / 2 ^ 53 = 2 ^ 52 * 2 powi (il - 52) / 2 ^ 53"
    by simp
  also have "\<dots> = 2 powi (il - 52) / 2"
    by simp
  finally show "(2::real) powi (il - 52) / 2 = 2 powi il / 2 ^ 53"
    by simp
qed


lemma round_f64_range:
  assumes a: "0 < a" and b: "0 < b"
    and l: "2 powi l \<le> real a / real b" and u: "real a / real b < 2 powi u"
    and lo: "- 1022 \<le> l" and hi: "u \<le> 1023"
  shows "\<exists>m e. round_f64 s a b = Fin s m e \<and> 0 < m
           \<and> 2 powi l \<le> real m * 2 powi e \<and> real m * 2 powi e \<le> 2 powi u
           \<and> \<bar>real m * 2 powi e - real a / real b\<bar> \<le> real a / real b / 2 ^ 53"
proof -
  let ?il = "ilog2_ratio a b"
  let ?e = "?il - 52"
  let ?m = "round_half_even (a * 2 ^ nat (- ?e)) (b * 2 ^ nat ?e)"
  let ?q = "real a / real b"
  have "(2::real) powi l < 2 powi (?il + 1)"
    using l ilog2_ratio_bounds(2) [OF a b] by (rule le_less_trans)
  then have "l < ?il + 1"
    by (rule powi_two_less_cancel)
  then have l_il: "l \<le> ?il"
    by simp
  have "(2::real) powi ?il < 2 powi u"
    using ilog2_ratio_bounds(1) [OF a b] u by (rule le_less_trans)
  then have "?il < u"
    by (rule powi_two_less_cancel)
  then have il_u: "?il + 1 \<le> u"
    by simp
  have r: "round_f64 s a b = Fin s ?m ?e"
    using l_il il_u lo hi by (intro round_f64_normal [OF a b]) simp_all
  note m = mantissa_range [OF a b refl [of ?e]]
  have m_pos: "0 < ?m"
    using m(1) by (rule less_le_trans [rotated]) simp
  have pe: "(0::real) \<le> 2 powi ?e" by simp
  have "real (2 ^ 52) \<le> real ?m"
    using m(1) by (simp only: of_nat_le_iff)
  then have "2 ^ 52 * 2 powi ?e \<le> real ?m * 2 powi ?e"
    using pe by (intro mult_right_mono) simp_all
  then have "2 powi ?il \<le> real ?m * 2 powi ?e"
    by (simp only: powi_unscale)
  with powi_two_mono [OF l_il] have v_lo: "2 powi l \<le> real ?m * 2 powi ?e"
    by (rule order_trans)
  have "real ?m \<le> real (2 ^ 53)"
    using m(2) by (simp only: of_nat_le_iff)
  then have "real ?m * 2 powi ?e \<le> 2 ^ 53 * 2 powi ?e"
    using pe by (intro mult_right_mono) simp_all
  then have "real ?m * 2 powi ?e \<le> 2 powi (?il + 1)"
    by (simp only: powi_unscale)
  from this powi_two_mono [OF il_u] have v_hi: "real ?m * 2 powi ?e \<le> 2 powi u"
    by (rule order_trans)
  have "2 powi ?il / (2::real) ^ 53 \<le> ?q / 2 ^ 53"
    using ilog2_ratio_bounds(1) [OF a b] by (rule divide_right_mono) simp
  then have "2 powi ?e / 2 \<le> ?q / 2 ^ 53"
    by (simp only: powi_unscale)
  with m(3) have "\<bar>real ?m * 2 powi ?e - ?q\<bar> \<le> ?q / 2 ^ 53"
    by (rule order_trans)
  with r m_pos v_lo v_hi show ?thesis
    by blast
qed

subsection \<open>The float64 operations on finite nonzero numbers\<close>

lemma in_rangeI:
  "x = Fin s m e \<Longrightarrow> 0 < m \<Longrightarrow> 2 powi l \<le> real m * 2 powi e \<Longrightarrow>
   real m * 2 powi e \<le> 2 powi u \<Longrightarrow> in_range x l u"
  by (simp add: in_range_def f64_mag_def)

lemma round_f64_in_range:
  assumes a: "0 < a" and b: "0 < b"
    and l: "2 powi l \<le> real a / real b" and u: "real a / real b < 2 powi u"
    and lo: "- 1022 \<le> l" and hi: "u \<le> 1023"
  shows "in_range (round_f64 s a b) l u"
    and "f64_sign (round_f64 s a b) = s"
    and "\<bar>f64_mag (round_f64 s a b) - real a / real b\<bar> \<le> real a / real b / 2 ^ 53"
proof -
  from round_f64_range [OF assms, of s] obtain m e
    where r: "round_f64 s a b = Fin s m e" and m: "0 < m"
      and v: "2 powi l \<le> real m * 2 powi e" "real m * 2 powi e \<le> 2 powi u"
      and err: "\<bar>real m * 2 powi e - real a / real b\<bar> \<le> real a / real b / 2 ^ 53"
    by blast
  from r m v show "in_range (round_f64 s a b) l u"
    by (rule in_rangeI)
  from r show "f64_sign (round_f64 s a b) = s"
    by (simp add: f64_sign_def)
  from r err show "\<bar>f64_mag (round_f64 s a b) - real a / real b\<bar> \<le> real a / real b / 2 ^ 53"
    by (simp add: f64_mag_def)
qed

lemma f64_of_int64_zero: "f64_of_int64 0 = Fin False 0 0"
  by (simp add: f64_of_int64_def round_f64_def)

lemma abs_sint_bounds:
  fixes x :: "64 word"
  assumes "x \<noteq> 0"
  shows "0 < nat \<bar>sint x\<bar>" and "real (nat \<bar>sint x\<bar>) < 2 powi 64"
    and "1 \<le> real (nat \<bar>sint x\<bar>)"
proof -
  from assms have "sint x \<noteq> 0"
    by (simp add: signed_eq_0_iff)
  then show p: "0 < nat \<bar>sint x\<bar>"
    by simp
  then have "1 \<le> nat \<bar>sint x\<bar>"
    by linarith
  then have "real 1 \<le> real (nat \<bar>sint x\<bar>)"
    by (simp only: of_nat_le_iff)
  then show "1 \<le> real (nat \<bar>sint x\<bar>)"
    by (simp only: of_nat_1)
  have "- (2 ^ 63) \<le> sint x" "sint x < 2 ^ 63"
    using sint_ge [of x] sint_lt [of x] by simp_all
  then have "nat \<bar>sint x\<bar> < 2 ^ 64"
    by simp
  then have "real (nat \<bar>sint x\<bar>) < real (2 ^ 64)"
    by (simp only: of_nat_less_iff)
  then show "real (nat \<bar>sint x\<bar>) < 2 powi 64"
    by (simp add: power_int_def)
qed

lemma f64_of_int64_in_range:
  fixes x :: "64 word"
  assumes "x \<noteq> 0"
  shows "in_range (f64_of_int64 x) 0 64"
    and "f64_sign (f64_of_int64 x) = (sint x < 0)"
    and "\<bar>f64_mag (f64_of_int64 x) - \<bar>real_of_int (sint x)\<bar>\<bar>
           \<le> \<bar>real_of_int (sint x)\<bar> / 2 ^ 53"
proof -
  let ?a = "nat \<bar>sint x\<bar>"
  note s = abs_sint_bounds [OF assms]
  have q: "real ?a / real 1 = \<bar>real_of_int (sint x)\<bar>"
    by simp
  have l: "2 powi 0 \<le> real ?a / real 1"
    using s(3) by simp
  have u: "real ?a / real 1 < 2 powi 64"
    using s(2) by simp
  note r = round_f64_in_range [OF s(1) zero_less_one l u, of "sint x < 0"]
  from r(1) show "in_range (f64_of_int64 x) 0 64"
    by (simp add: f64_of_int64_def)
  from r(2) show "f64_sign (f64_of_int64 x) = (sint x < 0)"
    by (simp add: f64_of_int64_def)
  from r(3) show "\<bar>f64_mag (f64_of_int64 x) - \<bar>real_of_int (sint x)\<bar>\<bar>
           \<le> \<bar>real_of_int (sint x)\<bar> / 2 ^ 53"
    unfolding f64_of_int64_def q by simp
qed

lemma in_rangeE:
  assumes "in_range x l u"
  obtains s m e where "x = Fin s m e" and "0 < m"
    and "2 powi l \<le> real m * 2 powi e" and "real m * 2 powi e \<le> 2 powi u"
  using assms by (auto simp: in_range_def f64_mag_def)

lemma f64_div_ratio:
  assumes "0 < n"
  shows "real (m * 2 ^ nat (e - f)) / real (n * 2 ^ nat (f - e))
           = (real m * 2 powi e) / (real n * 2 powi f)"
proof -
  have "real (m * 2 ^ nat (- (f - e))) / real (n * 2 ^ nat (f - e))
          = real m / real n * 2 powi (- (f - e))"
    by (rule scaled_ratio [OF assms])
  moreover have "- (f - e) = e - f"
    by simp
  moreover have "(2::real) powi (e - f) = 2 powi e / 2 powi f"
    by (simp add: power_int_diff)
  ultimately show ?thesis
    by simp
qed

lemma f64_div_in_range:
  assumes x: "in_range x l1 u1" and y: "in_range y l2 u2"
    and lo: "- 1022 \<le> l1 - u2" and hi: "u1 - l2 + 1 \<le> 1023"
  shows "in_range (f64_div x y) (l1 - u2) (u1 - l2 + 1)"
    and "f64_sign (f64_div x y) = (f64_sign x \<noteq> f64_sign y)"
    and "\<bar>f64_mag (f64_div x y) - f64_mag x / f64_mag y\<bar> \<le> f64_mag x / f64_mag y / 2 ^ 53"
proof -
  from x obtain s m e where x': "x = Fin s m e" and m: "0 < m"
    and xl: "2 powi l1 \<le> real m * 2 powi e" and xu: "real m * 2 powi e \<le> 2 powi u1"
    by (rule in_rangeE)
  from y obtain t n f where y': "y = Fin t n f" and n: "0 < n"
    and yl: "2 powi l2 \<le> real n * 2 powi f" and yu: "real n * 2 powi f \<le> 2 powi u2"
    by (rule in_rangeE)
  let ?A = "m * 2 ^ nat (e - f)" and ?B = "n * 2 ^ nat (f - e)"
  let ?v = "real m * 2 powi e" and ?w = "real n * 2 powi f"
  have d: "f64_div x y = round_f64 (s \<noteq> t) ?A ?B"
    using n by (simp add: x' y')
  have A: "0 < ?A" and B: "0 < ?B"
    using m n by simp_all
  have q: "real ?A / real ?B = ?v / ?w"
    by (rule f64_div_ratio [OF n])
  have w: "0 < ?w" and v: "0 \<le> ?v"
    using n by simp_all
  have "(2::real) powi (l1 - u2) = 2 powi l1 / 2 powi u2"
    by (simp add: power_int_diff)
  also have "\<dots> \<le> ?v / ?w"
    using xl yu w by (intro frac_le) simp_all
  also have "\<dots> = real ?A / real ?B"
    by (simp only: q)
  finally have l: "2 powi (l1 - u2) \<le> real ?A / real ?B" .
  have "real ?A / real ?B = ?v / ?w"
    by (rule q)
  also have "\<dots> \<le> 2 powi u1 / 2 powi l2"
    using xu yl v by (intro frac_le) simp_all
  also have "\<dots> = 2 powi (u1 - l2)"
    by (simp add: power_int_diff)
  also have "\<dots> < 2 powi (u1 - l2 + 1)"
    by (intro power_int_strict_increasing) simp_all
  finally have u: "real ?A / real ?B < 2 powi (u1 - l2 + 1)" .
  note r = round_f64_in_range [OF A B l u lo hi, of "s \<noteq> t"]
  from r(1) show "in_range (f64_div x y) (l1 - u2) (u1 - l2 + 1)"
    by (simp only: d)
  have "f64_sign x = s" "f64_sign y = t"
    by (simp_all add: x' y' f64_sign_def)
  with r(2) show "f64_sign (f64_div x y) = (f64_sign x \<noteq> f64_sign y)"
    by (simp only: d)
  have "f64_mag x = ?v" "f64_mag y = ?w"
    by (simp_all add: x' y' f64_mag_def)
  with r(3) show "\<bar>f64_mag (f64_div x y) - f64_mag x / f64_mag y\<bar>
                    \<le> f64_mag x / f64_mag y / 2 ^ 53"
    by (simp only: d q)
qed


lemma f64_mul_100_in_range:
  assumes x: "in_range x l u" and lo: "- 1022 \<le> l + 6" and hi: "u + 7 \<le> 1023"
  shows "in_range (f64_mul x f64_100) (l + 6) (u + 7)"
    and "f64_sign (f64_mul x f64_100) = f64_sign x"
    and "\<bar>f64_mag (f64_mul x f64_100) - f64_mag x * 100\<bar> \<le> f64_mag x * 100 / 2 ^ 53"
proof -
  from x obtain s m e where x': "x = Fin s m e" and m: "0 < m"
    and xl: "2 powi l \<le> real m * 2 powi e" and xu: "real m * 2 powi e \<le> 2 powi u"
    by (rule in_rangeE)
  let ?A = "m * 100 * 2 ^ nat (- (- e))" and ?B = "(1::nat) * 2 ^ nat (- e)"
  let ?v = "real m * 2 powi e"
  have d: "f64_mul x f64_100 = round_f64 s ?A ?B"
    by (simp add: x' f64_100_def)
  have A: "0 < ?A" and B: "0 < ?B"
    using m by simp_all
  have "real ?A / real ?B = real (m * 100) / real 1 * 2 powi (- (- e))"
    by (rule scaled_ratio) simp
  then have q: "real ?A / real ?B = ?v * 100"
    by simp
  have v: "0 < ?v"
    using m by simp
  have "(2::real) powi (l + 6) = 2 powi l * 2 powi 6"
    by (simp add: power_int_add)
  also have "\<dots> \<le> ?v * 2 powi 6"
    using xl by (intro mult_right_mono) simp_all
  also have "\<dots> \<le> ?v * 100"
    using v by (intro mult_left_mono) (simp_all add: power_int_def)
  finally have l: "2 powi (l + 6) \<le> real ?A / real ?B"
    by (simp only: q)
  have "?v * 100 < ?v * 2 powi 7"
    using v by (intro mult_strict_left_mono) (simp_all add: power_int_def)
  also have "\<dots> \<le> 2 powi u * 2 powi 7"
    using xu by (intro mult_right_mono) simp_all
  also have "\<dots> = 2 powi (u + 7)"
    by (simp add: power_int_add)
  finally have u: "real ?A / real ?B < 2 powi (u + 7)"
    by (simp only: q)
  note r = round_f64_in_range [OF A B l u lo hi, of s]
  from r(1) show "in_range (f64_mul x f64_100) (l + 6) (u + 7)"
    by (simp only: d)
  have "f64_sign x = s"
    by (simp add: x' f64_sign_def)
  with r(2) show "f64_sign (f64_mul x f64_100) = f64_sign x"
    by (simp only: d)
  have "f64_mag x = ?v"
    by (simp add: x' f64_mag_def)
  with r(3) show "\<bar>f64_mag (f64_mul x f64_100) - f64_mag x * 100\<bar>
                    \<le> f64_mag x * 100 / 2 ^ 53"
    by (simp only: d q)
qed

lemma round_half_even_one: "round_half_even n (Suc 0) = n"
  by (simp add: round_half_even_def)

lemma math_Round_finite:
  "\<exists>m' e'. math_Round (Fin s m e) = Fin s m' e' \<and> 0 \<le> e'
      \<and> \<bar>real m' * 2 powi e' - real m * 2 powi e\<bar> \<le> 1 / 2"
proof (cases "0 \<le> e")
  case True
  then have "math_Round (Fin s m e) = Fin s m e"
    by simp
  with True show ?thesis
    by auto
next
  case False
  let ?D = "(2::nat) ^ nat (- e)"
  let ?m = "(2 * m + ?D) div (2 * ?D)"
  have D: "0 < 2 * ?D" by simp
  have r: "math_Round (Fin s m e) = Fin s ?m 0"
    using False by simp
  have p: "(2::real) powi e = 1 / real ?D"
    using False by (simp add: power_int_def field_simps)
  have "?m * (2 * ?D) \<le> 2 * m + ?D"
    by (rule div_times_less_eq_dividend)
  then have "real (?m * (2 * ?D)) \<le> real (2 * m + ?D)"
    by (simp only: of_nat_le_iff)
  then have up: "real ?m \<le> real m / real ?D + 1 / 2"
    by (simp add: field_simps)
  have "2 * m + ?D < (2 * ?D) + ?m * (2 * ?D)"
    using D by (rule dividend_less_div_times)
  then have "real (2 * m + ?D) < real ((2 * ?D) + ?m * (2 * ?D))"
    by (simp only: of_nat_less_iff)
  then have low: "real m / real ?D - 1 / 2 < real ?m"
    by (simp add: field_simps)
  from up low have "\<bar>real ?m - real m / real ?D\<bar> \<le> 1 / 2"
    by linarith
  then have "\<bar>real ?m * 2 powi 0 - real m * 2 powi e\<bar> \<le> 1 / 2"
    by (simp only: p) simp
  with r have "math_Round (Fin s m e) = Fin s ?m 0 \<and> (0::int) \<le> 0
      \<and> \<bar>real ?m * 2 powi 0 - real m * 2 powi e\<bar> \<le> 1 / 2"
    by (intro conjI) simp_all
  then show ?thesis
    by blast
qed

lemma fmt_f_integer:
  "0 \<le> e \<Longrightarrow> fmt_f 0 (Fin s m e) = (if s then ''-'' else []) @ show_nat (m * 2 ^ nat e)"
  by (simp add: round_half_even_one)

subsection \<open>The error of the used-percent computation\<close>

lemma rel_bounds:
  fixes x y eps :: real
  assumes "\<bar>x - y\<bar> \<le> y * eps"
  shows "y * (1 - eps) \<le> x" and "x \<le> y * (1 + eps)"
  using assms by (simp_all add: abs_le_iff algebra_simps)

lemma rel_error_chain:
  fixes U S A B Q Y eps :: real
  assumes U: "0 < U" and S: "0 < S" and e0: "0 \<le> eps" and e1: "eps < 1"
    and A: "\<bar>A - U\<bar> \<le> U * eps" and B: "\<bar>B - S\<bar> \<le> S * eps"
    and Q: "\<bar>Q - A / B\<bar> \<le> A / B * eps" and Y: "\<bar>Y - Q * 100\<bar> \<le> Q * 100 * eps"
  shows "U / S * 100 * ((1 - eps) ^ 3 / (1 + eps)) \<le> Y"
    and "Y \<le> U / S * 100 * ((1 + eps) ^ 3 / (1 - eps))"
proof -
  note a = rel_bounds [OF A] and b = rel_bounds [OF B]
    and q = rel_bounds [OF Q] and y = rel_bounds [OF Y]
  have m: "0 < 1 - eps" and p: "0 < 1 + eps"
    using e0 e1 by simp_all
  have A0: "0 \<le> U * (1 - eps)" and B0: "0 < S * (1 - eps)"
    using U S m by simp_all
  have Ap: "0 \<le> A" using a(1) A0 by linarith
  have Bp: "0 < B" using b(1) B0 by linarith
  have AB_hi: "A / B \<le> U * (1 + eps) / (S * (1 - eps))"
    using a(2) b(1) B0 U p by (intro frac_le) simp_all
  have AB_lo: "U * (1 - eps) / (S * (1 + eps)) \<le> A / B"
    using a(1) b(2) Bp A0 by (intro frac_le) simp_all
  have AB0: "0 \<le> A / B" using Ap Bp by simp
  have Q_hi: "Q \<le> U * (1 + eps) / (S * (1 - eps)) * (1 + eps)"
  proof -
    have "A / B * (1 + eps) \<le> U * (1 + eps) / (S * (1 - eps)) * (1 + eps)"
      using AB_hi p by (intro mult_right_mono) simp_all
    with q(2) show ?thesis by linarith
  qed
  have Q_lo: "U * (1 - eps) / (S * (1 + eps)) * (1 - eps) \<le> Q"
  proof -
    have "U * (1 - eps) / (S * (1 + eps)) * (1 - eps) \<le> A / B * (1 - eps)"
      using AB_lo m by (intro mult_right_mono) simp_all
    with q(1) show ?thesis by linarith
  qed
  have Q0: "0 \<le> Q"
  proof -
    have "0 \<le> U * (1 - eps) / (S * (1 + eps)) * (1 - eps)"
      using U S m p by simp
    with Q_lo show ?thesis by linarith
  qed
  have S0: "S \<noteq> 0" and m0: "1 - eps \<noteq> 0" and p0: "1 + eps \<noteq> 0"
    using S m p by simp_all
  define X where "X = U * (1 + eps) / (S * (1 - eps)) * (1 + eps)"
  define Z where "Z = U * (1 - eps) / (S * (1 + eps)) * (1 - eps)"
  have QX: "Q \<le> X" and ZQ: "Z \<le> Q"
    using Q_hi Q_lo by (simp_all only: X_def Z_def)
  from QX have "Q * 100 \<le> X * 100"
    by simp
  then have "Q * 100 * (1 + eps) \<le> X * 100 * (1 + eps)"
    using p by (intro mult_right_mono) simp_all
  moreover have "X * 100 * (1 + eps) = U / S * 100 * ((1 + eps) ^ 3 / (1 - eps))"
    unfolding X_def using S0 m0 by (simp add: power3_eq_cube)
  ultimately show "Y \<le> U / S * 100 * ((1 + eps) ^ 3 / (1 - eps))"
    using y(2) by linarith
  from ZQ have "Z * 100 \<le> Q * 100"
    by simp
  then have "Z * 100 * (1 - eps) \<le> Q * 100 * (1 - eps)"
    using m by (intro mult_right_mono) simp_all
  moreover have "Z * 100 * (1 - eps) = U / S * 100 * ((1 - eps) ^ 3 / (1 + eps))"
    unfolding Z_def using S0 p0 by (simp add: power3_eq_cube)
  ultimately show "U / S * 100 * ((1 - eps) ^ 3 / (1 + eps)) \<le> Y"
    using y(1) by linarith
qed

lemma eps_53:
  "(1 + 1 / 2 ^ 53) ^ 3 / (1 - 1 / 2 ^ 53) \<le> (1 + 1 / 2 ^ 50 :: real)"
  "(1 - 1 / 2 ^ 50 :: real) \<le> (1 - 1 / 2 ^ 53) ^ 3 / (1 + 1 / 2 ^ 53)"
  by (simp_all add: field_simps)

lemma usedPercent_zero_used:
  assumes sz: "Size d \<noteq> 0" and used: "Size d - Free d = 0"
  shows "usedPercent d = Fin (sint (Size d) < 0) 0 0"
proof -
  from f64_of_int64_in_range(1,2) [OF sz] obtain t n f
    where b: "f64_of_int64 (Size d) = Fin t n f" and n: "0 < n" and t: "t = (sint (Size d) < 0)"
    by (auto elim!: in_rangeE simp: f64_sign_def)
  have "f64_div (f64_of_int64 0) (f64_of_int64 (Size d)) = Fin t 0 0"
    using n by (simp add: f64_of_int64_zero b round_f64_def)
  then have "f64_mul (f64_div (f64_of_int64 0) (f64_of_int64 (Size d))) f64_100 = Fin t 0 0"
    by (simp add: f64_100_def round_f64_def)
  then show ?thesis
    by (simp add: usedPercent_def used t)
qed

lemma usedPercent_error:
  assumes sz: "Size d \<noteq> 0" and used: "Size d - Free d \<noteq> 0"
  defines "X \<equiv> \<bar>real_of_int (sint (Size d - Free d))\<bar> / \<bar>real_of_int (sint (Size d))\<bar> * 100"
  shows "\<exists>m e. usedPercent d = Fin ((sint (Size d - Free d) < 0) \<noteq> (sint (Size d) < 0)) m e
           \<and> 0 \<le> e \<and> \<bar>real m * 2 powi e - X\<bar> \<le> 1 / 2 + X / 2 ^ 50"
proof -
  let ?a = "f64_of_int64 (Size d - Free d)" and ?b = "f64_of_int64 (Size d)"
  let ?q = "f64_div ?a ?b"
  let ?y = "f64_mul ?q f64_100"
  let ?U = "\<bar>real_of_int (sint (Size d - Free d))\<bar>" and ?S = "\<bar>real_of_int (sint (Size d))\<bar>"
  note a = f64_of_int64_in_range [OF used] and b = f64_of_int64_in_range [OF sz]
  have q: "in_range ?q (- 64) 65" "f64_sign ?q = (f64_sign ?a \<noteq> f64_sign ?b)"
    "\<bar>f64_mag ?q - f64_mag ?a / f64_mag ?b\<bar> \<le> f64_mag ?a / f64_mag ?b / 2 ^ 53"
    using f64_div_in_range [OF a(1) b(1)] by simp_all
  have y: "in_range ?y (- 58) 72" "f64_sign ?y = f64_sign ?q"
    "\<bar>f64_mag ?y - f64_mag ?q * 100\<bar> \<le> f64_mag ?q * 100 / 2 ^ 53"
    using f64_mul_100_in_range [OF q(1)] by simp_all
  from y(1) obtain s m e where y': "?y = Fin s m e"
    by (rule in_rangeE)
  have s: "s = ((sint (Size d - Free d) < 0) \<noteq> (sint (Size d) < 0))"
    using y(2) q(2) a(2) b(2) by (simp add: y' f64_sign_def)
  have Y: "f64_mag ?y = real m * 2 powi e"
    by (simp add: y' f64_mag_def)
  from math_Round_finite [of s m e] obtain m' e'
    where r: "math_Round (Fin s m e) = Fin s m' e'" and e': "0 \<le> e'"
      and err: "\<bar>real m' * 2 powi e' - real m * 2 powi e\<bar> \<le> 1 / 2"
    by blast
  have U: "0 < ?U" and S: "0 < ?S"
    using used sz by (simp_all add: signed_eq_0_iff)
  have c: "X * ((1 - 1 / 2 ^ 53) ^ 3 / (1 + 1 / 2 ^ 53)) \<le> f64_mag ?y"
    "f64_mag ?y \<le> X * ((1 + 1 / 2 ^ 53) ^ 3 / (1 - 1 / 2 ^ 53))"
    unfolding X_def
    using rel_error_chain [OF U S, of "1 / 2 ^ 53" "f64_mag ?a" "f64_mag ?b" "f64_mag ?q"
        "f64_mag ?y"] a(3) b(3) q(3) y(3)
    by simp_all
  have X0: "0 \<le> X"
    unfolding X_def by simp
  have "X * (1 - 1 / 2 ^ 50) \<le> X * ((1 - 1 / 2 ^ 53) ^ 3 / (1 + 1 / 2 ^ 53))"
    using X0 eps_53(2) by (rule mult_left_mono [rotated])
  with c(1) have lo: "X - X / 2 ^ 50 \<le> f64_mag ?y"
    by (simp add: algebra_simps)
  have "X * ((1 + 1 / 2 ^ 53) ^ 3 / (1 - 1 / 2 ^ 53)) \<le> X * (1 + 1 / 2 ^ 50)"
    using X0 eps_53(1) by (rule mult_left_mono [rotated])
  with c(2) have hi: "f64_mag ?y \<le> X + X / 2 ^ 50"
    by (simp add: algebra_simps)
  from lo hi err have "\<bar>real m' * 2 powi e' - X\<bar> \<le> 1 / 2 + X / 2 ^ 50"
    unfolding Y by linarith
  moreover have "usedPercent d = Fin s m' e'"
    by (simp only: usedPercent_def y' r)
  ultimately show ?thesis
    using e' s by blast
qed

subsection \<open>Device listing\<close>

lemma signed_quotient:
  fixes u s :: int
  assumes "u \<noteq> 0" and "s \<noteq> 0"
  shows "real_of_int u / real_of_int s * 100
           = (if (u < 0) \<noteq> (s < 0)
              then - (\<bar>real_of_int u\<bar> / \<bar>real_of_int s\<bar> * 100)
              else \<bar>real_of_int u\<bar> / \<bar>real_of_int s\<bar> * 100)"
  using assms by (cases "u < 0"; cases "s < 0") simp_all

lemma abs_quotient:
  fixes u s :: int
  shows "\<bar>real_of_int u / real_of_int s * 100\<bar> = \<bar>real_of_int u\<bar> / \<bar>real_of_int s\<bar> * 100"
  by (simp add: abs_mult)

lemma abs_signed_diff:
  fixes P X :: real
  shows "\<bar>(if c then - P else P) - (if c then - X else X)\<bar> = \<bar>P - X\<bar>"
  by (cases c) (simp_all add: abs_minus_commute)

lemma usedPercent_real:
  assumes sz: "Size d \<noteq> 0"
  shows "\<exists>s m e. usedPercent d = Fin s m e \<and> 0 \<le> e
           \<and> \<bar>f64_real (usedPercent d) - exact_percent d\<bar>
               \<le> 1 / 2 + \<bar>exact_percent d\<bar> / 2 ^ 50"
proof (cases "Size d - Free d = 0")
  case True
  from usedPercent_zero_used [OF sz True] True show ?thesis
    by (simp add: f64_real_def f64_mag_def exact_percent_def)
next
  case False
  let ?u = "sint (Size d - Free d)" and ?s = "sint (Size d)"
  let ?X = "\<bar>real_of_int ?u\<bar> / \<bar>real_of_int ?s\<bar> * 100"
  from usedPercent_error [OF sz False] obtain m e
    where p: "usedPercent d = Fin ((?u < 0) \<noteq> (?s < 0)) m e" and e: "0 \<le> e"
      and err: "\<bar>real m * 2 powi e - ?X\<bar> \<le> 1 / 2 + ?X / 2 ^ 50"
    by blast
  have u0: "?u \<noteq> 0" and s0: "?s \<noteq> 0"
    using False sz by (simp_all add: signed_eq_0_iff)
  have X: "\<bar>exact_percent d\<bar> = ?X"
    unfolding exact_percent_def by (rule abs_quotient)
  have sg: "exact_percent d = (if (?u < 0) \<noteq> (?s < 0) then - ?X else ?X)"
    unfolding exact_percent_def by (rule signed_quotient [OF u0 s0])
  have v: "f64_real (usedPercent d)
          = (if (?u < 0) \<noteq> (?s < 0) then - (real m * 2 powi e) else real m * 2 powi e)"
    by (simp add: p f64_real_def f64_sign_def f64_mag_def)
  have "\<bar>f64_real (usedPercent d) - exact_percent d\<bar> = \<bar>real m * 2 powi e - ?X\<bar>"
    unfolding v sg by (rule abs_signed_diff)
  with err have "\<bar>f64_real (usedPercent d) - exact_percent d\<bar> \<le> 1 / 2 + ?X / 2 ^ 50"
    by (simp only:)
  then have "\<bar>f64_real (usedPercent d) - exact_percent d\<bar>
               \<le> 1 / 2 + \<bar>exact_percent d\<bar> / 2 ^ 50"
    by (simp only: X)
  with p e show ?thesis
    by blast
qed

lemma ListDevices_rows:
  "fst (ListDevices ui (Inr devices)) = None"
  "length (snd (ListDevices ui (Inr devices))) = Suc (length devices)"
  "i < length devices \<Longrightarrow>
   snd (ListDevices ui (Inr devices)) ! Suc i
     = device_line (maxDeviceNameLenght devices) (if useColors ui then 20 else 9)
         (if useColors ui then 20 else 9) (if useColors ui then 20 else 9)
         (if useColors ui then 16 else 5) (device_cells ui (devices ! i))"
  by (simp_all add: ListDevices_def Let_def)

lemma example_row:
  "device_cells (example_ui pr ap es) sda1 = [''sda1'', ''1000 B'', ''600 B'', ''400 B'', ''60%'', ''/'']"
  "maxDeviceNameLenght [sda1] = 7"
  "device_line 7 9 9 9 5 [''Device'', ''Size'', ''Used'', ''Free'', ''Used%'', ''Mount point'']
     = '' Device      Size      Used      Free Used% Mount point'' @ [CHR 0x0A]"
  "device_line 7 9 9 9 5 [''sda1'', ''1000 B'', ''600 B'', ''400 B'', ''60%'', ''/'']
     = ''   sda1    1000 B     600 B     400 B   60% /'' @ [CHR 0x0A]"
  by (simp_all add: device_cells_def usedPercent_def sda1_def example_ui_def formatSize_def
        maxDeviceNameLenght_def maxInt_def maxLength_def f64_eval fmt_eval)

lemma example_listing:
  "ListDevices (example_ui False False []) (Inr [sda1])
     = (None, ['' Device      Size      Used      Free Used% Mount point'' @ [CHR 0x0A],
               ''   sda1    1000 B     600 B     400 B   60% /'' @ [CHR 0x0A]])"
proof -
  have "\<not> useColors (example_ui False False [])"
    by (simp add: example_ui_def)
  then show ?thesis
    by (simp add: ListDevices_def example_row)
qed

text \<open>
  C7, amended: for a device of nonzero size, the row that \<open>ListDevices\<close> prints has the
  Used column \<open>formatSize (size - free)\<close> and the Used% column the text of
  \<open>math.Round(float64(size - free) / float64(size) * 100)\<close>, computed in float64
  arithmetic, followed by a percent sign. That value is a finite float64 and a whole
  number, and it differs from the exact \<open>(size - free) / size \<times> 100\<close> by at most one
  half and a float64 rounding error of \<open>2^-50\<close> of the percentage. For the single device
  sda1 of size 1000 with 400 free, mounted on \<open>/\<close>, the Used% column is \<open>60%\<close>.
\<close>

theorem ListDevices_used_percent:
  assumes "i < length devices" and "Size (devices ! i) \<noteq> 0"
  shows "(\<exists>s m e.
           snd (ListDevices ui (Inr devices)) ! Suc i
             = device_line (maxDeviceNameLenght devices) (if useColors ui then 20 else 9)
                 (if useColors ui then 20 else 9) (if useColors ui then 20 else 9)
                 (if useColors ui then 16 else 5) (device_cells ui (devices ! i))
           \<and> device_cells ui (devices ! i) ! 2
               = formatSize ui (Size (devices ! i) - Free (devices ! i))
           \<and> usedPercent (devices ! i)
               = math_Round (f64_mul (f64_div (f64_of_int64 (Size (devices ! i) - Free (devices ! i)))
                                              (f64_of_int64 (Size (devices ! i)))) f64_100)
           \<and> usedPercent (devices ! i) = Fin s m e \<and> 0 \<le> e
           \<and> device_cells ui (devices ! i) ! 4
               = red ui ((if s then ''-'' else []) @ show_nat (m * 2 ^ nat e) @ ''%'')
           \<and> \<bar>f64_real (usedPercent (devices ! i)) - exact_percent (devices ! i)\<bar>
               \<le> 1 / 2 + \<bar>exact_percent (devices ! i)\<bar> / 2 ^ 50)
         \<and> ListDevices (example_ui False False []) (Inr [sda1])
             = (None, ['' Device      Size      Used      Free Used% Mount point'' @ [CHR 0x0A],
                       ''   sda1    1000 B     600 B     400 B   60% /'' @ [CHR 0x0A]])"
proof -
  let ?d = "devices ! i"
  from usedPercent_real [OF assms(2)] obtain s m e
    where p: "usedPercent ?d = Fin s m e" and e: "0 \<le> e"
      and err: "\<bar>f64_real (usedPercent ?d) - exact_percent ?d\<bar>
                  \<le> 1 / 2 + \<bar>exact_percent ?d\<bar> / 2 ^ 50"
    by blast
  have cell: "device_cells ui ?d ! 4
                = red ui ((if s then ''-'' else []) @ show_nat (m * 2 ^ nat e) @ ''%'')"
    using fmt_f_integer [OF e, of s m] by (simp add: device_cells_def p)
  have used: "device_cells ui ?d ! 2 = formatSize ui (Size ?d - Free ?d)"
    by (simp add: device_cells_def)
  have def: "usedPercent ?d
               = math_Round (f64_mul (f64_div (f64_of_int64 (Size ?d - Free ?d))
                                              (f64_of_int64 (Size ?d))) f64_100)"
    by (rule usedPercent_def)
  from ListDevices_rows(3) [OF assms(1), of ui] used def p e cell err example_listing
  show ?thesis
    by blast
qed

theorem ListDevices_used_percent_witness:
  "0 < length [sda1] \<and> Size ([sda1] ! 0) \<noteq> 0
   \<and> (\<exists>s m e. usedPercent ([sda1] ! 0) = Fin s m e \<and> 0 \<le> e
         \<and> device_cells (example_ui False False []) ([sda1] ! 0) ! 4
             = (if s then ''-'' else []) @ show_nat (m * 2 ^ nat e) @ ''%''
         \<and> \<bar>f64_real (usedPercent ([sda1] ! 0)) - exact_percent ([sda1] ! 0)\<bar>
             \<le> 1 / 2 + \<bar>exact_percent ([sda1] ! 0)\<bar> / 2 ^ 50)
   \<and> device_cells (example_ui False False []) ([sda1] ! 0) ! 4 = ''60%''
   \<and> exact_percent ([sda1] ! 0) = 60"
proof -
  have a: "0 < length [sda1]" and b: "Size ([sda1] ! 0) \<noteq> 0"
    by (simp_all add: sda1_def)
  have r: "red (example_ui False False []) = (\<lambda>t. t)"
    by (simp add: example_ui_def)
  from ListDevices_used_percent [OF a b, of "example_ui False False []"]
  have "\<exists>s m e. usedPercent ([sda1] ! 0) = Fin s m e \<and> 0 \<le> e
         \<and> device_cells (example_ui False False []) ([sda1] ! 0) ! 4
             = (if s then ''-'' else []) @ show_nat (m * 2 ^ nat e) @ ''%''
         \<and> \<bar>f64_real (usedPercent ([sda1] ! 0)) - exact_percent ([sda1] ! 0)\<bar>
             \<le> 1 / 2 + \<bar>exact_percent ([sda1] ! 0)\<bar> / 2 ^ 50"
    unfolding r by blast
  moreover have "device_cells (example_ui False False []) ([sda1] ! 0) ! 4 = ''60%''"
    by (simp add: example_row)
  moreover have "exact_percent ([sda1] ! 0) = 60"
    by (simp add: exact_percent_def sda1_def)
  ultimately show ?thesis
    using a b by blast
qed

lemma sdb1_cells:
  "device_cells (example_ui pr ap es) sdb1
     = [''sdb1'', ''200.0 GiB'', ''115.0 GiB'', ''85.0 GiB'', ''57%'', ''/data'']"
  by (simp add: device_cells_def usedPercent_def sdb1_def example_ui_def formatSize_def f64_eval)

lemma sdb1_exact:
  "sint (Size sdb1) = 200 * 2 ^ 30"
  "sint (Size sdb1 - Free sdb1) = 115 * 2 ^ 30"
  "exact_percent sdb1 = 115 / 2"
  "round (exact_percent sdb1) = 58"
  by (simp_all add: exact_percent_def sdb1_def round_def)

lemma sdb1_listing:
  "ListDevices (example_ui False False []) (Inr [sdb1])
     = (None, ['' Device      Size      Used      Free Used% Mount point'' @ [CHR 0x0A],
               ''   sdb1 200.0 GiB 115.0 GiB  85.0 GiB   57% /data'' @ [CHR 0x0A]])"
proof -
  have "\<not> useColors (example_ui False False [])"
    by (simp add: example_ui_def)
  moreover have "maxDeviceNameLenght [sdb1] = 7"
    by (simp add: maxDeviceNameLenght_def maxInt_def maxLength_def sdb1_def)
  ultimately show ?thesis
    by (simp add: ListDevices_def sdb1_cells fmt_eval)
qed

text \<open>
  C7 as stated fails: of a device of 200 GiB with 85 GiB free, 115 GiB are used, which
  is 57.5 percent exactly and 58 when rounded; the Used% column is \<open>57%\<close>, because the
  float64 quotient is a little below 0.575 and its product with 100 a little below 57.5.
\<close>

theorem ListDevices_used_percent_counterexample:
  "sint (Size sdb1) = 200 * 2 ^ 30
   \<and> sint (Size sdb1 - Free sdb1) = 115 * 2 ^ 30
   \<and> exact_percent sdb1 = 115 / 2
   \<and> round (exact_percent sdb1) = 58
   \<and> device_cells (example_ui False False []) sdb1 ! 4 = ''57%''
   \<and> ListDevices (example_ui False False []) (Inr [sdb1])
       = (None, ['' Device      Size      Used      Free Used% Mount point'' @ [CHR 0x0A],
                 ''   sdb1 200.0 GiB 115.0 GiB  85.0 GiB   57% /data'' @ [CHR 0x0A]])"
  using sdb1_exact sdb1_listing by (simp add: sdb1_cells)

lemma usedPercent_no_size:
  assumes "Size d = 0"
  shows "usedPercent d
           = (if Free d = 0 then NaN else Inf (sint (- Free d) < 0))"
proof (cases "Free d = 0")
  case True
  with assms show ?thesis
    by (simp add: usedPercent_def f64_of_int64_zero)
next
  case False
  then have used: "- Free d \<noteq> 0"
    by simp
  from f64_of_int64_in_range(1,2) [OF used] obtain s m e
    where a: "f64_of_int64 (- Free d) = Fin s m e" and m: "0 < m"
      and s: "s = (sint (- Free d) < 0)"
    by (auto elim!: in_rangeE simp: f64_sign_def)
  have "f64_div (f64_of_int64 (- Free d)) (f64_of_int64 0) = Inf s"
    using m by (simp add: a f64_of_int64_zero)
  then have "math_Round (f64_mul (f64_div (f64_of_int64 (- Free d)) (f64_of_int64 0)) f64_100)
               = Inf s"
    by (simp add: f64_100_def)
  with False assms s show ?thesis
    by (simp add: usedPercent_def)
qed

text \<open>
  C6, amended: for a device whose size is 0, \<open>ListDevices\<close> does not fail: it returns
  nil and prints the header and one row for each device. In the row of such a device
  the Used% column is \<open>NaN%\<close> when free is 0 as well, \<open>-Inf%\<close> when \<open>size - free\<close> (as
  int64) is negative and \<open>+Inf%\<close> when it is positive.
\<close>

theorem ListDevices_zero_size:
  assumes "i < length devices" and "Size (devices ! i) = 0"
  shows "fst (ListDevices ui (Inr devices)) = None
         \<and> length (snd (ListDevices ui (Inr devices))) = Suc (length devices)
         \<and> snd (ListDevices ui (Inr devices)) ! Suc i
             = device_line (maxDeviceNameLenght devices) (if useColors ui then 20 else 9)
                 (if useColors ui then 20 else 9) (if useColors ui then 20 else 9)
                 (if useColors ui then 16 else 5) (device_cells ui (devices ! i))
         \<and> device_cells ui (devices ! i) ! 4
             = red ui (if Free (devices ! i) = 0 then ''NaN%''
                       else if sint (- Free (devices ! i)) < 0 then ''-Inf%'' else ''+Inf%'')"
proof -
  have "device_cells ui (devices ! i) ! 4
             = red ui (if Free (devices ! i) = 0 then ''NaN%''
                       else if sint (- Free (devices ! i)) < 0 then ''-Inf%'' else ''+Inf%'')"
    by (simp add: device_cells_def usedPercent_no_size [OF assms(2)])
  with ListDevices_rows(1,2) [of ui devices] ListDevices_rows(3) [OF assms(1), of ui]
  show ?thesis
    by (intro conjI)
qed

lemma no_size_cells:
  "device_cells (example_ui pr ap es) (no_size 400)
     = [''tmpfs'', ''0 B'', ''-400 B'', ''400 B'', ''-Inf%'', ''/run'']"
  "device_cells (example_ui pr ap es) (no_size 0)
     = [''tmpfs'', ''0 B'', ''0 B'', ''0 B'', ''NaN%'', ''/run'']"
  "device_cells (example_ui pr ap es) (no_size (- 400))
     = [''tmpfs'', ''0 B'', ''400 B'', ''-400 B'', ''+Inf%'', ''/run'']"
  by (simp_all add: device_cells_def usedPercent_def no_size_def example_ui_def formatSize_def
        f64_eval)

lemma no_size_row:
  "snd (ListDevices (example_ui False False []) (Inr [no_size 400])) ! 1
     = ''  tmpfs       0 B    -400 B     400 B -Inf% /run'' @ [CHR 0x0A]"
proof -
  have "\<not> useColors (example_ui False False [])"
    by (simp add: example_ui_def)
  moreover have "maxDeviceNameLenght [no_size 400] = 7"
    by (simp add: maxDeviceNameLenght_def maxInt_def maxLength_def no_size_def)
  ultimately show ?thesis
    by (simp add: ListDevices_def no_size_cells fmt_eval)
qed

text \<open>
  C6 as stated fails: for a device of size 0 with 400 bytes free the Used% column is
  \<open>-Inf%\<close>, which is neither \<open>0%\<close> nor a marker of its own, and the text depends on
  free: \<open>NaN%\<close> with 0 free, \<open>+Inf%\<close> with a negative free.
\<close>

theorem ListDevices_zero_size_counterexample:
  "Size (no_size 400) = 0
   \<and> snd (ListDevices (example_ui False False []) (Inr [no_size 400])) ! 1
       = ''  tmpfs       0 B    -400 B     400 B -Inf% /run'' @ [CHR 0x0A]
   \<and> device_cells (example_ui False False []) (no_size 400) ! 4 = ''-Inf%''
   \<and> device_cells (example_ui False False []) (no_size 400) ! 4 \<noteq> ''0%''
   \<and> device_cells (example_ui False False []) (no_size 0) ! 4 = ''NaN%''
   \<and> device_cells (example_ui False False []) (no_size (- 400)) ! 4 = ''+Inf%''"
  using no_size_row by (simp add: no_size_cells) (simp add: no_size_def)

theorem ListDevices_zero_size_witness:
  "0 < length [no_size 400] \<and> Size ([no_size 400] ! 0) = 0
   \<and> fst (ListDevices (example_ui False False []) (Inr [no_size 400])) = None
   \<and> length (snd (ListDevices (example_ui False False []) (Inr [no_size 400]))) = 2
   \<and> device_cells (example_ui False False []) ([no_size 400] ! 0) ! 4 = ''-Inf%''"
proof -
  have a: "0 < length [no_size 400]" and b: "Size ([no_size 400] ! 0) = 0"
    by (simp_all add: no_size_def)
  have r: "red (example_ui False False []) = (\<lambda>t. t)"
    by (simp add: example_ui_def)
  have f: "Free ([no_size 400] ! 0) \<noteq> 0" "sint (- Free ([no_size 400] ! 0)) < 0"
    by (simp_all add: no_size_def)
  from ListDevices_zero_size [OF a b, of "example_ui False False []"] a b
  show ?thesis
    unfolding r using f by simp
qed

lemma Max_insert_max:
  "finite S \<Longrightarrow> Max (insert a (insert b S)) = Max (insert (max a b) S)"
  for a :: nat
  by (cases "S = {}") (simp_all add: max.assoc max.commute)

lemma maxLength_loop_Max:
  "maxLength_loop n list keyGetter = Max (set (n # map (\<lambda>d. length (keyGetter d)) list))"
proof (induction list arbitrary: n)
  case Nil
  show ?case
    by simp
next
  case (Cons item list)
  have "(if n < length (keyGetter item) then length (keyGetter item) else n)
          = max n (length (keyGetter item))"
    by (simp add: max_def)
  then have "maxLength_loop n (item # list) keyGetter
          = Max (insert (max n (length (keyGetter item)))
                   (set (map (\<lambda>d. length (keyGetter d)) list)))"
    by (simp add: Cons.IH del: Max_insert)
  also have "\<dots> = Max (insert n (insert (length (keyGetter item))
                   (set (map (\<lambda>d. length (keyGetter d)) list))))"
    by (rule Max_insert_max [symmetric]) simp
  finally show ?case
    by simp
qed

lemma maxDeviceNameLenght_Max:
  "maxDeviceNameLenght devices = Max (set (7 # map (\<lambda>d. length (Name d)) devices))"
proof -
  define M where "M = Max (set (0 # map (\<lambda>d. length (Name d)) devices))"
  have l: "length ''Devices'' = 7"
    by simp
  have "maxDeviceNameLenght devices = (if 7 < M then M else 7)"
    unfolding maxDeviceNameLenght_def maxInt_def maxLength_def maxLength_loop_Max l M_def ..
  also have "\<dots> = max 7 M"
    by (simp add: max_def)
  also have "\<dots> = max 7 (Max (set (0 # map (\<lambda>d. length (Name d)) devices)))"
    by (simp only: M_def)
  also have "\<dots> = Max (insert 7 (insert 0 (set (map (\<lambda>d. length (Name d)) devices))))"
    by simp
  also have "\<dots> = Max (insert (max 7 0) (set (map (\<lambda>d. length (Name d)) devices)))"
    by (rule Max_insert_max) simp
  finally show ?thesis
    by simp
qed

text \<open>
  C8: the width of the name column is the larger of the longest device name and 7, the
  length of the string \<open>Devices\<close>, whereas the label printed over the column is \<open>Device\<close>,
  of length 6. For the single device \<open>sda1\<close> the claim gives the width 6; the column
  printed is 7 wide: the label has a space before it, and the name three.
\<close>

theorem ListDevices_name_width:
  "maxDeviceNameLenght devices = Max (set (7 # map (\<lambda>d. length (Name d)) devices))
   \<and> maxDeviceNameLenght [sda1] = 7
   \<and> max (length (Name sda1)) (length ''Device'') = 6
   \<and> ListDevices (example_ui False False []) (Inr [sda1])
       = (None,
          ['' Device      Size      Used      Free Used% Mount point'' @ [CHR 0x0A],
           ''   sda1    1000 B     600 B     400 B   60% /'' @ [CHR 0x0A]])"
proof -
  note maxDeviceNameLenght_Max [of devices]
  moreover have "max (length (Name sda1)) (length ''Device'') = 6"
    by (simp add: sda1_def)
  ultimately show ?thesis
    using example_row(2) example_listing by simp
qed

end
